theory Spec2Isabelle
  imports Complex_Main "HOL-Library.Multiset" "HOL-Library.Word"
begin

section \<open>Data model\<close>

text \<open>
  The embedding follows \<^verbatim>\<open>Intrepid2_PolylibDef.hpp\<close>.

  \<^item> \<^verbatim>\<open>ordinal_type\<close> (a 32-bit \<^verbatim>\<open>int\<close>) is \<open>int\<close> where it counts points, degrees and
    loop indices. In \<^verbatim>\<open>GammaFunction\<close>, where it is the target of a cast from
    \<^verbatim>\<open>double\<close> and the counter of a loop that can wrap around, it is \<open>32 word\<close>.
  \<^item> \<^verbatim>\<open>double\<close> is \<open>real\<close> and arithmetic is exact, except in the two places where
    the outcome of the code rests on rounding: the products of \<^verbatim>\<open>GammaFunction\<close> and
    the comparison \<^verbatim>\<open>abs(e(m))+dd == dd\<close> of \<^verbatim>\<open>TriQL\<close>, which round with \<open>fl\<close>.
    Infinities, NaN and the exponent range of \<^verbatim>\<open>double\<close> are not represented, and a
    division by zero has HOL's value \<open>0\<close>.
  \<^item> A rank-1 Kokkos view is the function from index to stored value. Kokkos does not
    check bounds; the extent of a view is the caller's obligation and is not part of
    the model. A view handle that may be null (\<^verbatim>\<open>data() == nullptr\<close>) is a
    \<open>view option\<close>.
  \<^item> \<^verbatim>\<open>subview(z, pair(1, extent))\<close> is the same memory seen one slot later:
    \<open>shift_view\<close> gives the subview, \<open>unshift_view\<close> the parent after the callee wrote
    through the subview.
  \<^item> A rank-2 view is a function of row and column; the row subview
    \<^verbatim>\<open>subview(D, np-1, pair(0,np))\<close> is the row \<open>D (np - 1)\<close>.
  \<^item> \<^verbatim>\<open>INTREPID2_TEST_FOR_ABORT\<close> is a result \<open>Inl e\<close>, one error per message of
    the file.
  \<^item> A call that does not return in this model (the \<^verbatim>\<open>do ... while\<close> of \<^verbatim>\<open>TriQL\<close>,
    should its iteration count never meet the limit) is the value \<open>None\<close>.
  \<^item> The constants \<^verbatim>\<open>MaxPolylibPoint\<close>, \<^verbatim>\<open>MaxPolylibIteration\<close> and
    \<^verbatim>\<open>tolerence()\<close> are declared in a header that is not part of the sources; they
    are the fields of a parameter record.
  \<^item> Input views (\<^verbatim>\<open>const zViewType z\<close>) are taken not to overlap the output views
    of the same call.
\<close>

type_synonym view = "int \<Rightarrow> real"

type_synonym matrix = "int \<Rightarrow> int \<Rightarrow> real"

datatype error = Misuse | OrderExceeded | IterationLimitExceeded | InvalidDomain

type_synonym 'a res = "(error + 'a) option"

record params =
  MaxPolylibPoint :: int
  MaxPolylibIteration :: int
  tolerence :: real

definition shift_view :: "view \<Rightarrow> view" where
  "shift_view z = (\<lambda>k. z (k + 1))"

definition unshift_view :: "view \<Rightarrow> view" where
  "unshift_view zp = (\<lambda>i. zp (i - 1))"

text \<open>\<^verbatim>\<open>D(j,i) = v\<close>\<close>

definition upd2 :: "matrix \<Rightarrow> int \<Rightarrow> int \<Rightarrow> real \<Rightarrow> matrix" where
  "upd2 D j i v = D(j := (D j)(i := v))"

text \<open>\<^verbatim>\<open>for (i = lo; i < hi; ++i) body\<close>, for a body that changes neither \<open>i\<close> nor the bounds.\<close>

definition for_up :: "int \<Rightarrow> int \<Rightarrow> (int \<Rightarrow> 's \<Rightarrow> 's) \<Rightarrow> 's \<Rightarrow> 's" where
  "for_up lo hi body s = fold body [lo..hi - 1] s"

text \<open>\<^verbatim>\<open>for (i = hi; i >= lo; i--) body\<close>\<close>

definition for_down :: "int \<Rightarrow> int \<Rightarrow> (int \<Rightarrow> 's \<Rightarrow> 's) \<Rightarrow> 's \<Rightarrow> 's" where
  "for_down hi lo body s = fold body (rev [lo..hi]) s"

text \<open>Sequencing of calls that may abort or not return.\<close>

definition bind_res :: "'a res \<Rightarrow> ('a \<Rightarrow> 'b res) \<Rightarrow> 'b res" where
  "bind_res m f = (case m of None \<Rightarrow> None | Some (Inl e) \<Rightarrow> Some (Inl e) | Some (Inr a) \<Rightarrow> f a)"

section \<open>Double precision\<close>

text \<open>
  \<open>fl x\<close> is the \<^verbatim>\<open>double\<close> nearest to \<open>x\<close>: a significand of 53 bits, rounding to
  nearest with ties to the even significand (\<open>rne\<close>). \<open>expo x\<close> is the exponent of the last
  bit of the significand, found by halving or doubling until the magnitude is in
  \<open>[2^52, 2^53)\<close>. The exponent is unbounded here, so \<open>fl\<close> agrees with the machine as long
  as the magnitude stays within the normal range of \<^verbatim>\<open>double\<close>; the products of
  \<^verbatim>\<open>GammaFunction\<close> do for arguments up to \<open>170.5\<close> and, at the integers, up to 171.
\<close>

definition rne :: "real \<Rightarrow> int" where
  "rne x = (if x - of_int \<lfloor>x\<rfloor> < 1 / 2 then \<lfloor>x\<rfloor>
            else if 1 / 2 < x - of_int \<lfloor>x\<rfloor> then \<lfloor>x\<rfloor> + 1
            else if even \<lfloor>x\<rfloor> then \<lfloor>x\<rfloor> else \<lfloor>x\<rfloor> + 1)"

function expo :: "real \<Rightarrow> int" where
  "expo x = (if x = 0 then 0
             else if 2 ^ 53 \<le> \<bar>x\<bar> then expo (x / 2) + 1
             else if \<bar>x\<bar> < 2 ^ 52 then expo (x * 2) - 1
             else 0)"
  by pat_completeness auto
termination
proof (relation "measure (\<lambda>x. if 2 ^ 53 \<le> \<bar>x\<bar> then nat \<lfloor>\<bar>x\<bar>\<rfloor> else nat \<lceil>2 ^ 53 / \<bar>x\<bar>\<rceil>)")
  show "wf (measure (\<lambda>x :: real. if 2 ^ 53 \<le> \<bar>x\<bar> then nat \<lfloor>\<bar>x\<bar>\<rfloor> else nat \<lceil>2 ^ 53 / \<bar>x\<bar>\<rceil>))"
    by simp
next
  fix x :: real
  assume x: "x \<noteq> 0" "2 ^ 53 \<le> \<bar>x\<bar>"
  have b: "(9007199254740992::int) \<le> \<lfloor>\<bar>x\<bar>\<rfloor>" using x(2) by (simp add: le_floor_iff)
  show "(x / 2, x) \<in> measure (\<lambda>x. if 2 ^ 53 \<le> \<bar>x\<bar> then nat \<lfloor>\<bar>x\<bar>\<rfloor> else nat \<lceil>2 ^ 53 / \<bar>x\<bar>\<rceil>)"
  proof (cases "2 ^ 53 \<le> \<bar>x / 2\<bar>")
    case True
    have "\<bar>x\<bar> / 2 \<le> \<bar>x\<bar> - 1" using x(2) by simp
    then have "\<lfloor>\<bar>x\<bar> / 2\<rfloor> \<le> \<lfloor>\<bar>x\<bar> - 1\<rfloor>" by (rule floor_mono)
    then have "\<lfloor>\<bar>x\<bar> / 2\<rfloor> < \<lfloor>\<bar>x\<bar>\<rfloor>" by simp
    then show ?thesis using True x by simp
  next
    case False
    have "2 ^ 53 / \<bar>x / 2\<bar> = 2 * (2 ^ 53 / \<bar>x\<bar>)" by simp
    also have "\<dots> \<le> 2 * 1" using x by (intro mult_left_mono) simp_all
    finally have "\<lceil>2 ^ 53 / \<bar>x / 2\<bar>\<rceil> \<le> 2" by (simp add: ceiling_le_iff)
    then have "\<lceil>2 ^ 53 / \<bar>x / 2\<bar>\<rceil> < \<lfloor>\<bar>x\<bar>\<rfloor>" using b by linarith
    then show ?thesis using False x by simp
  qed
next
  fix x :: real
  assume x: "x \<noteq> 0" "\<not> 2 ^ 53 \<le> \<bar>x\<bar>" "\<bar>x\<bar> < 2 ^ 52"
  define a where "a = 2 ^ 53 / \<bar>x\<bar>"
  have a2: "2 < a"
  proof -
    have "2 * \<bar>x\<bar> < 2 ^ 53" using x(3) by simp
    then show ?thesis using x(1) by (simp add: a_def pos_less_divide_eq)
  qed
  have "a / 2 \<le> of_int \<lceil>a\<rceil> / 2" by simp
  moreover have "3 \<le> \<lceil>a\<rceil>" using a2 by linarith
  ultimately have "a / 2 \<le> of_int (\<lceil>a\<rceil> - 1)" by simp linarith
  then have "\<lceil>a / 2\<rceil> \<le> \<lceil>a\<rceil> - 1" by (simp only: ceiling_le_iff)
  then have lt: "\<lceil>a / 2\<rceil> < \<lceil>a\<rceil>" by simp
  have pos: "0 < \<lceil>a\<rceil>" using a2 by linarith
  have h1: "2 ^ 53 / \<bar>x * 2\<bar> = a / 2" by (simp add: a_def)
  have n1: "\<not> 2 ^ 53 \<le> \<bar>x * 2\<bar>" using x(3) by simp
  have "nat \<lceil>a / 2\<rceil> < nat \<lceil>a\<rceil>" using lt pos by simp
  then show "(x * 2, x) \<in> measure (\<lambda>x. if 2 ^ 53 \<le> \<bar>x\<bar> then nat \<lfloor>\<bar>x\<bar>\<rfloor> else nat \<lceil>2 ^ 53 / \<bar>x\<bar>\<rceil>)"
    by (simp only: in_measure if_not_P [OF n1] if_not_P [OF x(2)] h1 a_def [symmetric])
qed

declare expo.simps [simp del]

definition fl :: "real \<Rightarrow> real" where
  "fl x = of_int (rne (x / 2 powi expo x)) * 2 powi expo x"

section \<open>GammaFunction\<close>

text \<open>
  The cast \<^verbatim>\<open>(ordinal_type)x\<close> truncates towards zero when the truncated value is a
  32-bit integer. Outside that range C++ leaves the cast undefined; the value taken here
  is the one the x86-64 conversion instruction delivers, \<open>-2^31\<close>.
\<close>

definition to_ordinal :: "real \<Rightarrow> 32 word" where
  "to_ordinal x =
     (if - 2147483649 < x \<and> x < 2147483648 then word_of_int (if 0 \<le> x then \<lfloor>x\<rfloor> else \<lceil>x\<rceil>)
      else word_of_int (- 2147483648))"

text \<open>
  \<^verbatim>\<open>while (n--) { tmp -= 1.0; gamma *= tmp; }\<close> The counter wraps around at the ends of
  the 32-bit range, so the loop ends for every \<open>n\<close>; the difference and the product are
  rounded.
\<close>

function Gamma_half_loop :: "32 word \<Rightarrow> real \<Rightarrow> real \<Rightarrow> real" where
  "Gamma_half_loop n tmp gamma =
     (if n \<noteq> 0 then Gamma_half_loop (n - 1) (fl (tmp - 1)) (fl (gamma * fl (tmp - 1))) else gamma)"
  by pat_completeness auto
termination
  by (relation "measure (\<lambda>(n, tmp, gamma). unat n)") (auto simp: measure_unat)

declare Gamma_half_loop.simps [simp del]

text \<open>\<^verbatim>\<open>while (--n) { tmp -= 1.0; gamma *= tmp; }\<close>\<close>

function Gamma_int_loop :: "32 word \<Rightarrow> real \<Rightarrow> real \<Rightarrow> real" where
  "Gamma_int_loop n tmp gamma =
     (if n - 1 \<noteq> 0 then Gamma_int_loop (n - 1) (fl (tmp - 1)) (fl (gamma * fl (tmp - 1))) else gamma)"
  by pat_completeness auto
termination
proof (relation "measure (\<lambda>(n, tmp, gamma). unat (n - 1))")
  show "wf (measure (\<lambda>(n :: 32 word, tmp :: real, gamma :: real). unat (n - 1)))" by simp
next
  fix n :: "32 word" and tmp gamma :: real
  assume "n - 1 \<noteq> 0"
  from measure_unat [OF this]
  show "((n - 1, fl (tmp - 1), fl (gamma * fl (tmp - 1))), n, tmp, gamma)
          \<in> measure (\<lambda>(n, tmp, gamma). unat (n - 1))"
    by simp
qed

declare Gamma_int_loop.simps [simp del]

text \<open>
  \<^verbatim>\<open>M_PI\<close> is the double nearest to \<open>pi\<close> and \<^verbatim>\<open>sqrt\<close> rounds correctly, so
  \<^verbatim>\<open>sqrt(M_PI)\<close> is \<open>fl (sqrt (fl pi))\<close>. The difference \<^verbatim>\<open>x-(ordinal_type)x\<close> is exact
  for a double \<open>x\<close> within the range of the cast. Both loops end, so every call returns
  or aborts; the result type is the one of the callers' sequencing.
\<close>

definition GammaFunction :: "real \<Rightarrow> real res" where
  "GammaFunction x =
     (if x = - 0.5 then Some (Inr (fl (- 2 * fl (sqrt (fl pi)))))
      else if x = 0 then Some (Inr 1)
      else if x - of_int (sint (to_ordinal x)) = 0.5 then
        Some (Inr (Gamma_half_loop (to_ordinal x) x (fl (sqrt (fl pi)))))
      else if x - of_int (sint (to_ordinal x)) = 0 then
        Some (Inr (Gamma_int_loop (to_ordinal x) x 1))
      else Some (Inl InvalidDomain))"

text \<open>
  \<^verbatim>\<open>pow(x, y)\<close> of the C library, on the arguments this file gives it: a positive base,
  or a negative base with an integral exponent. (A negative base with a fractional
  exponent is a domain error in C and has the value 0 here.)
\<close>

definition pow :: "real \<Rightarrow> real \<Rightarrow> real" where
  "pow x y = (if 0 < x then x powr y
              else if y = of_int \<lfloor>y\<rfloor> then x powi \<lfloor>y\<rfloor>
              else 0)"

section \<open>JacobiPolynomial\<close>

text \<open>
  The coefficient tables \<^verbatim>\<open>a2, a3, a4\<close> (zero-initialised local arrays), filled by
  \<^verbatim>\<open>for (auto k = 2; k <= n; ++k)\<close>.
\<close>

definition jacobi_coeffs :: "int \<Rightarrow> real \<Rightarrow> real \<Rightarrow> view \<times> view \<times> view" where
  "jacobi_coeffs n alpha beta =
     (let apb = alpha + beta; amb = alpha - beta in
      for_up 2 (n + 1)
        (\<lambda>k (a2, a3, a4).
           let a1 = 2 * of_int k * (of_int k + apb) * (2 * of_int k + apb - 2) in
           (a2(k - 2 := (2 * of_int k + apb - 1) * (apb * amb) / a1),
            a3(k - 2 := (2 * of_int k + apb - 2) * (2 * of_int k + apb - 1) * (2 * of_int k + apb) / a1),
            a4(k - 2 := 2 * (of_int k + alpha - 1) * (of_int k + beta - 1) * (2 * of_int k + apb) / a1)))
        (\<lambda>_. 0, \<lambda>_. 0, \<lambda>_. 0))"

text \<open>
  The recurrence at one point \<open>z_i\<close>: the values of \<^verbatim>\<open>polyn2, polyn1, polyn0\<close> when the
  loop \<^verbatim>\<open>for (k = 1; k < n-1; ++k)\<close> is left.
\<close>

definition jacobi_recur :: "view \<Rightarrow> view \<Rightarrow> view \<Rightarrow> int \<Rightarrow> real \<Rightarrow> real \<Rightarrow> real \<Rightarrow> real \<times> real \<times> real" where
  "jacobi_recur a2 a3 a4 n alpha beta z_i =
     (let apb = alpha + beta; amb = alpha - beta;
          polyn2 = 1;
          polyn1 = 0.5 * (amb + (apb + 2) * z_i);
          polyn0 = (a2 0 + a3 0 * z_i) * polyn1 - a4 0 * polyn2
      in for_up 1 (n - 1)
           (\<lambda>k (polyn2, polyn1, polyn0).
              (polyn1, polyn0, (a2 k + a3 k * z_i) * polyn0 - a4 k * polyn1))
           (polyn2, polyn1, polyn0))"

text \<open>
  \<^verbatim>\<open>JacobiPolynomial(np, z, polyi, polyd, n, alpha, beta)\<close>. The result is the pair of
  output views after the call. The first abort test is written as the source has it:
  \<^verbatim>\<open>polyd.data() && !polyd.data()\<close>.
\<close>

definition JacobiPolynomial ::
  "params \<Rightarrow> int \<Rightarrow> view \<Rightarrow> view option \<Rightarrow> view option \<Rightarrow> int \<Rightarrow> real \<Rightarrow> real
     \<Rightarrow> error + (view option \<times> view option)" where
  "JacobiPolynomial c np z polyi polyd n alpha beta =
     (if np = 0 then Inr (polyi, polyd)
      else if n = 0 then
        Inr (map_option (for_up 0 np (\<lambda>i p. p(i := 1))) polyi,
             map_option (for_up 0 np (\<lambda>i p. p(i := 0))) polyd)
      else if n = 1 then
        Inr (map_option (for_up 0 np (\<lambda>i p. p(i := 0.5 * (alpha - beta + (alpha + beta + 2) * z i)))) polyi,
             map_option (for_up 0 np (\<lambda>i p. p(i := 0.5 * (alpha + beta + 2)))) polyd)
      else if polyd \<noteq> None \<and> \<not> polyd \<noteq> None then Inl Misuse
      else
        (case polyi of
           None \<Rightarrow> Inr (polyi, polyd)
         | Some polyi0 \<Rightarrow>
             let maxOrder = 2 * MaxPolylibPoint c - 1 in
             if maxOrder < n then Inl OrderExceeded
             else
               let (a2, a3, a4) = jacobi_coeffs n alpha beta;
                   (ad1, ad2, ad3) =
                     (case polyd of
                        None \<Rightarrow> (0, 0, 0)
                      | Some _ \<Rightarrow>
                          let ad4 = 2 * of_int n + alpha + beta in
                          (of_int n * (alpha - beta) / ad4,
                           of_int n * (2 * of_int n + alpha + beta) / ad4,
                           2 * (of_int n + alpha) * (of_int n + beta) / ad4));
                   (pi', pd') =
                     for_up 0 np
                       (\<lambda>i (pI, pD).
                          let z_i = z i;
                              (polyn2, polyn1, polyn0) = jacobi_recur a2 a3 a4 n alpha beta z_i
                          in (pI(i := polyn0),
                              map_option
                                (\<lambda>d. d(i := (ad1 - ad2 * z_i) * polyn0 + ad3 * polyn1 / (1 - z_i * z_i)))
                                pD))
                       (polyi0, polyd)
               in Inr (Some pi', pd')))"

text \<open>
  The value the routine stores in \<^verbatim>\<open>polyi(i)\<close> for a point \<open>x = z(i)\<close>, read off the three
  branches above (used to state what a call leaves in its value view).
\<close>

definition JacobiPolynomial_value :: "int \<Rightarrow> real \<Rightarrow> real \<Rightarrow> real \<Rightarrow> real" where
  "JacobiPolynomial_value n alpha beta x =
     (if n = 0 then 1
      else if n = 1 then 0.5 * (alpha - beta + (alpha + beta + 2) * x)
      else
        (case jacobi_coeffs n alpha beta of
           (a2, a3, a4) \<Rightarrow>
             (case jacobi_recur a2 a3 a4 n alpha beta x of (polyn2, polyn1, polyn0) \<Rightarrow> polyn0)))"

section \<open>JacobiPolynomialDerivative\<close>

text \<open>
  The output view \<^verbatim>\<open>polyd\<close> is passed on as the value view of \<^verbatim>\<open>JacobiPolynomial\<close>,
  with a null derivative view; it is never null here (the loops write through it).
\<close>

definition JacobiPolynomialDerivative ::
  "params \<Rightarrow> int \<Rightarrow> view \<Rightarrow> view \<Rightarrow> int \<Rightarrow> real \<Rightarrow> real \<Rightarrow> error + view" where
  "JacobiPolynomialDerivative c np z polyd n alpha beta =
     (if n = 0 then Inr (for_up 0 np (\<lambda>i p. p(i := 0)) polyd)
      else
        (case JacobiPolynomial c np z (Some polyd) None (n - 1) (alpha + 1) (beta + 1) of
           Inl e \<Rightarrow> Inl e
         | Inr (polyi', _) \<Rightarrow>
             Inr (for_up 0 np (\<lambda>i p. p(i := p i * (0.5 * (alpha + beta + of_int n + 1))))
                    (case polyi' of Some p \<Rightarrow> p | None \<Rightarrow> polyd))))"

section \<open>TriQL\<close>

text \<open>
  The search \<^verbatim>\<open>for (m=l; m<n-1; ++m) { dd=...; if (abs(e(m))+dd == dd) break; }\<close>:
  the value of \<open>m\<close> when the loop is left. The two sums are rounded, as the test is there
  to find an \<open>e(m)\<close> that no longer changes \<open>dd\<close> in double precision.
\<close>

function TriQL_find_m :: "view \<Rightarrow> view \<Rightarrow> int \<Rightarrow> int \<Rightarrow> int" where
  "TriQL_find_m d e n m =
     (if m < n - 1 then
        (if fl (\<bar>e m\<bar> + fl (\<bar>d m\<bar> + \<bar>d (m + 1)\<bar>)) = fl (\<bar>d m\<bar> + \<bar>d (m + 1)\<bar>) then m
         else TriQL_find_m d e n (m + 1))
      else m)"
  by pat_completeness auto
termination
  by (relation "measure (\<lambda>(d, e, n, m). nat (n - 1 - m))") auto

declare TriQL_find_m.simps [simp del]

text \<open>
  One pass of \<^verbatim>\<open>for (i=m-1; i>=l; i--)\<close> on the variables that live across passes:
  \<open>(d, e, s, c, p, g)\<close>.
\<close>

definition TriQL_rotate ::
  "int \<Rightarrow> view \<times> view \<times> real \<times> real \<times> real \<times> real \<Rightarrow> view \<times> view \<times> real \<times> real \<times> real \<times> real" where
  "TriQL_rotate i = (\<lambda>(d, e, s, c, p, g).
     let f = s * e i;
         b = c * e i;
         (e1, s1, c1) =
           (if \<bar>f\<bar> \<ge> \<bar>g\<bar> then
              (let c' = g / f; r = sqrt (c' * c' + 1); s' = 1 / r
               in (e(i + 1 := f * r), s', c' * s'))
            else
              (let s' = f / g; r = sqrt (s' * s' + 1); c' = 1 / r
               in (e(i + 1 := g * r), s' * c', c')));
         g1 = d (i + 1) - p;
         r1 = (d i - g1) * s1 + 2 * c1 * b;
         p1 = s1 * r1
     in (d(i + 1 := g1 + p1), e1, s1, c1, p1, c1 * r1 - b))"

text \<open>The body of \<^verbatim>\<open>if (m != l)\<close> after the iteration test: shift, rotations, write-back.\<close>

definition TriQL_sweep :: "int \<Rightarrow> int \<Rightarrow> view \<Rightarrow> view \<Rightarrow> view \<times> view" where
  "TriQL_sweep l m d e =
     (let g0 = (d (l + 1) - d l) / (2 * e l);
          r = sqrt (g0 * g0 + 1);
          g = d m - d l + e l / (g0 + (if g0 < 0 then - \<bar>r\<bar> else \<bar>r\<bar>));
          (d', e', s, c, p, g') = for_down (m - 1) l TriQL_rotate (d, e, 1, 1, 0, g)
      in (d'(l := d' l - p), (e'(l := g'))(m := 0)))"

text \<open>The \<^verbatim>\<open>do { ... } while (m != l)\<close> of one row \<open>l\<close>, from the iteration count \<open>iter\<close>.\<close>

partial_function (option) TriQL_reduce_row ::
  "params \<Rightarrow> int \<Rightarrow> int \<Rightarrow> int \<Rightarrow> view \<Rightarrow> view \<Rightarrow> (view \<times> view) res" where
  "TriQL_reduce_row c n l iter d e =
     (if TriQL_find_m d e n l \<noteq> l then
        (if iter = MaxPolylibIteration c then Some (Inl IterationLimitExceeded)
         else TriQL_reduce_row c n l (iter + 1)
                (fst (TriQL_sweep l (TriQL_find_m d e n l) d e))
                (snd (TriQL_sweep l (TriQL_find_m d e n l) d e)))
      else Some (Inr (d, e)))"

text \<open>\<^verbatim>\<open>for (l=0; l<n; ++l) { iter=0; do ... }\<close>, from row \<open>l\<close> on.\<close>

function TriQL_rows :: "params \<Rightarrow> int \<Rightarrow> int \<Rightarrow> view \<Rightarrow> view \<Rightarrow> (view \<times> view) res" where
  "TriQL_rows c n l d e =
     (if l < n then
        (case TriQL_reduce_row c n l 0 d e of
           None \<Rightarrow> None
         | Some (Inl er) \<Rightarrow> Some (Inl er)
         | Some (Inr de) \<Rightarrow> TriQL_rows c n (l + 1) (fst de) (snd de))
      else Some (Inr (d, e)))"
  by pat_completeness auto
termination
  by (relation "measure (\<lambda>(c, n, l, d, e). nat (n - l))") auto

declare TriQL_rows.simps [simp del]

text \<open>The final pass (\<^verbatim>\<open>// order eigenvalues\<close>).\<close>

definition TriQL_order :: "int \<Rightarrow> view \<Rightarrow> view" where
  "TriQL_order n d =
     for_up 0 (n - 1)
       (\<lambda>i d.
          let (k, p) = for_up (i + 1) n (\<lambda>l (k, p). if d l < p then (l, d l) else (k, p)) (i, d i)
          in (d(k := d i))(i := p))
       d"

definition TriQL :: "params \<Rightarrow> view \<Rightarrow> view \<Rightarrow> int \<Rightarrow> (view \<times> view) res" where
  "TriQL c d e n =
     bind_res (TriQL_rows c n 0 d e) (\<lambda>(d', e'). Some (Inr (TriQL_order n d', e')))"

section \<open>JacobiZeros\<close>

text \<open>\<^verbatim>\<open>poly(0)\<close> of a one-element view.\<close>

definition val0 :: "view option \<Rightarrow> real" where
  "val0 v = (case v of Some p \<Rightarrow> p 0 | None \<Rightarrow> 0)"

text \<open>
  The Newton loop \<^verbatim>\<open>for (j = 1; j < MaxPolylibIteration; ++j)\<close> for the root \<open>k\<close>, from
  the counter \<open>j\<close> and the iterate \<open>r\<close>; the result is \<^verbatim>\<open>r(0)\<close> when the loop is left.
  The one-element views \<^verbatim>\<open>poly\<close> and \<^verbatim>\<open>pder\<close> are written by every call of
  \<^verbatim>\<open>JacobiPolynomial\<close> that returns here, so their contents before the call do not
  matter. \<open>Newton_delr\<close> is \<^verbatim>\<open>delr\<close>, from the two views the call returned.
\<close>

definition Newton_delr :: "view \<Rightarrow> int \<Rightarrow> real \<Rightarrow> view option \<times> view option \<Rightarrow> real" where
  "Newton_delr z k r pp =
     (let poly = val0 (fst pp); pder = val0 (snd pp);
          sum = for_up 0 k (\<lambda>i sum. sum + 1 / (r - z i)) 0
      in - poly / (pder - sum * poly))"

function Newton_loop ::
  "params \<Rightarrow> view \<Rightarrow> int \<Rightarrow> int \<Rightarrow> real \<Rightarrow> real \<Rightarrow> int \<Rightarrow> real \<Rightarrow> error + real" where
  "Newton_loop c z k n alpha beta j r =
     (if j < MaxPolylibIteration c then
        (case JacobiPolynomial c 1 (\<lambda>_. r) (Some (\<lambda>_. 0)) (Some (\<lambda>_. 0)) n alpha beta of
           Inl er \<Rightarrow> Inl er
         | Inr pp \<Rightarrow>
             (if \<bar>Newton_delr z k r pp\<bar> < tolerence c
              then Inr (r + Newton_delr z k r pp)
              else Newton_loop c z k n alpha beta (j + 1) (r + Newton_delr z k r pp)))
      else Inr r)"
  by pat_completeness auto
termination
  by (relation "measure (\<lambda>(c, z, k, n, alpha, beta, j, r). nat (MaxPolylibIteration c - j))") auto

declare Newton_loop.simps [simp del]

text \<open>
  The starting value of root \<open>k\<close>: \<^verbatim>\<open>r(0) = -cos((two*(double)k + one) * dth)\<close> with
  \<^verbatim>\<open>dth = M_PI/(2.0*n)\<close>, then \<^verbatim>\<open>if (k) r(0) = 0.5*(r(0) + rlast)\<close>.
\<close>

definition Newton_guess :: "int \<Rightarrow> int \<Rightarrow> real \<Rightarrow> real" where
  "Newton_guess n k rlast =
     (let dth = pi / (2 * of_int n);
          r = - cos ((2 * of_int k + 1) * dth)
      in if k \<noteq> 0 then 0.5 * (r + rlast) else r)"

text \<open>\<^verbatim>\<open>for (auto k = 0; k < n; ++k)\<close>, from the root index \<open>k\<close> on; the state is \<open>z\<close> and \<open>rlast\<close>.\<close>

function Deflation_loop ::
  "params \<Rightarrow> int \<Rightarrow> real \<Rightarrow> real \<Rightarrow> int \<Rightarrow> view \<Rightarrow> real \<Rightarrow> error + view" where
  "Deflation_loop c n alpha beta k z rlast =
     (if k < n then
        (case Newton_loop c z k n alpha beta 1 (Newton_guess n k rlast) of
           Inl er \<Rightarrow> Inl er
         | Inr r \<Rightarrow> Deflation_loop c n alpha beta (k + 1) (z(k := r)) r)
      else Inr z)"
  by pat_completeness auto
termination
  by (relation "measure (\<lambda>(c, n, alpha, beta, k, z, rlast). nat (n - k))") auto

declare Deflation_loop.simps [simp del]

definition JacobiZerosPolyDeflation :: "params \<Rightarrow> view \<Rightarrow> int \<Rightarrow> real \<Rightarrow> real \<Rightarrow> error + view" where
  "JacobiZerosPolyDeflation c z n alpha beta =
     (if n = 0 then Inr z else Deflation_loop c n alpha beta 0 z 0)"

text \<open>
  For stating what the Newton loop returns: the update \<open>delr\<close> the loop body computes at
  the iterate \<open>r\<close>, and the iterate after \<open>t\<close> updates from \<open>r0\<close>.
\<close>

definition Newton_delta :: "params \<Rightarrow> view \<Rightarrow> int \<Rightarrow> int \<Rightarrow> real \<Rightarrow> real \<Rightarrow> real \<Rightarrow> real" where
  "Newton_delta c z k n alpha beta r =
     (case JacobiPolynomial c 1 (\<lambda>_. r) (Some (\<lambda>_. 0)) (Some (\<lambda>_. 0)) n alpha beta of
        Inl er \<Rightarrow> 0
      | Inr pp \<Rightarrow> Newton_delr z k r pp)"

definition Newton_iterate :: "params \<Rightarrow> view \<Rightarrow> int \<Rightarrow> int \<Rightarrow> real \<Rightarrow> real \<Rightarrow> real \<Rightarrow> nat \<Rightarrow> real" where
  "Newton_iterate c z k n alpha beta r0 t = ((\<lambda>r. r + Newton_delta c z k n alpha beta r) ^^ t) r0"

text \<open>
  The block \<^verbatim>\<open>// generate normalised terms\<close> of \<^verbatim>\<open>JacobiZerosTriDiagonal\<close>: the views \<open>a\<close>
  and \<open>b\<close> handed to \<^verbatim>\<open>TriQL\<close>, from the value \<open>b_last\<close> stored in \<^verbatim>\<open>b(n-1)\<close> (the
  quotient of Gamma values). The local array \<^verbatim>\<open>b_buf\<close> is not initialised; every entry
  that \<^verbatim>\<open>TriQL\<close> reads (\<open>0..n-1\<close>) is written first, so it starts as the zero view here.
\<close>

definition TriDiagonal_terms :: "view \<Rightarrow> int \<Rightarrow> real \<Rightarrow> real \<Rightarrow> real \<Rightarrow> view \<times> view" where
  "TriDiagonal_terms a n alpha beta b_last =
     (let apb = alpha + beta; apbi = 2 + apb;
          b0 = (\<lambda>_. 0)(n - 1 := b_last);
          a0 = a(0 := (beta - alpha) / apbi);
          b1 = b0(0 := sqrt (4 * (1 + alpha) * (1 + beta) / ((apbi + 1) * apbi * apbi)));
          a2b2 = beta * beta - alpha * alpha;
          (a1, b2) =
            for_up 1 (n - 1)
              (\<lambda>i (a, b).
                 let apbi = 2 * of_int (i + 1) + apb in
                 (a(i := a2b2 / ((apbi - 2) * apbi)),
                  b(i := sqrt (4 * of_int (i + 1) * (of_int (i + 1) + alpha)
                                 * (of_int (i + 1) + beta) * (of_int (i + 1) + apb)
                               / ((apbi * apbi - 1) * apbi * apbi)))))
              (a0, b1);
          apbi' = 2 * of_int n + apb;
          a2 = (if n > 1 then a1(n - 1 := a2b2 / ((apbi' - 2) * apbi')) else a1)
      in (a2, b2))"

text \<open>The three calls of \<^verbatim>\<open>GammaFunction\<close> in one expression are taken from left to right.\<close>

definition JacobiZerosTriDiagonal :: "params \<Rightarrow> view \<Rightarrow> int \<Rightarrow> real \<Rightarrow> real \<Rightarrow> view res" where
  "JacobiZerosTriDiagonal c a n alpha beta =
     (if n = 0 then Some (Inr a)
      else
        bind_res (GammaFunction (alpha + 1)) (\<lambda>g1.
        bind_res (GammaFunction (beta + 1)) (\<lambda>g2.
        bind_res (GammaFunction (2 + (alpha + beta))) (\<lambda>g3.
        bind_res (TriQL c
                    (fst (TriDiagonal_terms a n alpha beta (pow 2 (alpha + beta + 1) * g1 * g2 / g3)))
                    (snd (TriDiagonal_terms a n alpha beta (pow 2 (alpha + beta + 1) * g1 * g2 / g3)))
                    n)
          (\<lambda>(d, e). Some (Inr d))))))"

text \<open>The template flag \<^verbatim>\<open>DeflationEnabled\<close> is the argument \<open>defl\<close>.\<close>

definition JacobiZeros :: "params \<Rightarrow> bool \<Rightarrow> view \<Rightarrow> int \<Rightarrow> real \<Rightarrow> real \<Rightarrow> view res" where
  "JacobiZeros c defl z n alpha beta =
     (if defl then Some (JacobiZerosPolyDeflation c z n alpha beta)
      else JacobiZerosTriDiagonal c z n alpha beta)"

section \<open>Cubature\<close>

text \<open>
  \<^verbatim>\<open>Cubature<POLYTYPE_GAUSS_RADAU_LEFT>::getValues\<close>,
  \<^verbatim>\<open>Cubature<POLYTYPE_GAUSS_RADAU_RIGHT>::getValues\<close> and
  \<^verbatim>\<open>Cubature<POLYTYPE_GAUSS_LOBATTO>::getValues\<close>. The result is the pair \<open>(z, w)\<close>
  after the call.
\<close>

definition Cubature_GaussRadauLeft ::
  "params \<Rightarrow> bool \<Rightarrow> view \<Rightarrow> view \<Rightarrow> int \<Rightarrow> real \<Rightarrow> real \<Rightarrow> (view \<times> view) res" where
  "Cubature_GaussRadauLeft c defl z w np alpha beta =
     (if np = 1 then Some (Inr (z(0 := 0), w(0 := 2)))
      else
        let apb = alpha + beta;
            z0 = z(0 := - 1)
        in
        bind_res (JacobiZeros c defl (shift_view z0) (np - 1) alpha (beta + 1)) (\<lambda>z_plus_1.
        let z1 = unshift_view z_plus_1 in
        bind_res (Some (JacobiPolynomial c np z1 (Some w) None (np - 1) alpha beta)) (\<lambda>(wi, _).
        let w1 = (case wi of Some p \<Rightarrow> p | None \<Rightarrow> w) in
        bind_res (GammaFunction (alpha + of_int np)) (\<lambda>g1.
        bind_res (GammaFunction (beta + of_int np)) (\<lambda>g2.
        bind_res (GammaFunction (of_int np)) (\<lambda>g3.
        bind_res (GammaFunction (apb + of_int np + 1)) (\<lambda>g4.
        let fac = pow 2 apb * g1 * g2;
            fac' = fac / (g3 * (beta + of_int np) * g4);
            w2 = for_up 0 np (\<lambda>i w. w(i := fac' * (1 - z1 i) / (w i * w i))) w1
        in Some (Inr (z1, w2(0 := w2 0 * (beta + 1)))))))))))"

definition Cubature_GaussRadauRight ::
  "params \<Rightarrow> bool \<Rightarrow> view \<Rightarrow> view \<Rightarrow> int \<Rightarrow> real \<Rightarrow> real \<Rightarrow> (view \<times> view) res" where
  "Cubature_GaussRadauRight c defl z w np alpha beta =
     (if np = 1 then Some (Inr (z(0 := 0), w(0 := 2)))
      else
        let apb = alpha + beta in
        bind_res (JacobiZeros c defl z (np - 1) (alpha + 1) beta) (\<lambda>z0.
        let z1 = z0(np - 1 := 1) in
        bind_res (Some (JacobiPolynomial c np z1 (Some w) None (np - 1) alpha beta)) (\<lambda>(wi, _).
        let w1 = (case wi of Some p \<Rightarrow> p | None \<Rightarrow> w) in
        bind_res (GammaFunction (alpha + of_int np)) (\<lambda>g1.
        bind_res (GammaFunction (beta + of_int np)) (\<lambda>g2.
        bind_res (GammaFunction (of_int np)) (\<lambda>g3.
        bind_res (GammaFunction (apb + of_int np + 1)) (\<lambda>g4.
        let fac = pow 2 apb * g1 * g2;
            fac' = fac / (g3 * (alpha + of_int np) * g4);
            w2 = for_up 0 np (\<lambda>i w. w(i := fac' * (1 + z1 i) / (w i * w i))) w1
        in Some (Inr (z1, w2(np - 1 := w2 (np - 1) * (alpha + 1)))))))))))"

definition Cubature_GaussLobatto ::
  "params \<Rightarrow> bool \<Rightarrow> view \<Rightarrow> view \<Rightarrow> int \<Rightarrow> real \<Rightarrow> real \<Rightarrow> (view \<times> view) res" where
  "Cubature_GaussLobatto c defl z w np alpha beta =
     (if np = 1 then Some (Inr (z(0 := 0), w(0 := 2)))
      else
        let apb = alpha + beta;
            z0 = (z(0 := - 1))(np - 1 := 1)
        in
        bind_res (JacobiZeros c defl (shift_view z0) (np - 2) (alpha + 1) (beta + 1)) (\<lambda>z_plus_1.
        let z1 = unshift_view z_plus_1 in
        bind_res (Some (JacobiPolynomial c np z1 (Some w) None (np - 1) alpha beta)) (\<lambda>(wi, _).
        let w1 = (case wi of Some p \<Rightarrow> p | None \<Rightarrow> w) in
        bind_res (GammaFunction (alpha + of_int np)) (\<lambda>g1.
        bind_res (GammaFunction (beta + of_int np)) (\<lambda>g2.
        bind_res (GammaFunction (of_int np)) (\<lambda>g3.
        bind_res (GammaFunction (alpha + beta + of_int np + 1)) (\<lambda>g4.
        let fac = pow 2 (apb + 1) * g1 * g2;
            fac' = fac / (of_int (np - 1) * g3 * g4);
            w2 = for_up 0 np (\<lambda>i w. w(i := fac' / (w i * w i))) w1;
            w3 = w2(0 := w2 0 * (beta + 1))
        in Some (Inr (z1, w3(np - 1 := w3 (np - 1) * (alpha + 1)))))))))))"

section \<open>Derivative\<close>

text \<open>
  The inner loop \<^verbatim>\<open>for (j = 0; j < i; ++j)\<close> of the four \<^verbatim>\<open>Derivative<..>::getValues\<close>
  (the same text in each). \<^verbatim>\<open>pd_i\<close>, \<^verbatim>\<open>pd_j\<close> are references into the last row of
  \<open>D\<close>: each use reads \<open>D (np - 1)\<close> as it is at that moment.
\<close>

definition Derivative_offdiag :: "view \<Rightarrow> int \<Rightarrow> int \<Rightarrow> matrix \<Rightarrow> matrix" where
  "Derivative_offdiag z np i D =
     for_up 0 i
       (\<lambda>j D.
          let D1 = upd2 D j i (D (np - 1) j / (D (np - 1) i * (z j - z i)))
          in upd2 D1 i j (D1 (np - 1) i / (D1 (np - 1) j * (z i - z j))))
       D"

definition Derivative_Gauss :: "params \<Rightarrow> matrix \<Rightarrow> view \<Rightarrow> int \<Rightarrow> real \<Rightarrow> real \<Rightarrow> matrix res" where
  "Derivative_Gauss c D z np alpha beta =
     (if np \<le> 0 then Some (Inr (upd2 D 0 0 0))
      else
        bind_res (Some (JacobiPolynomialDerivative c np z (D (np - 1)) np alpha beta)) (\<lambda>pd.
        Some (Inr (for_up 0 np
          (\<lambda>i D. upd2 (Derivative_offdiag z np i D) i i
                   ((alpha - beta + (alpha + beta + 2) * z i) / (2 * (1 - z i * z i))))
          (D(np - 1 := pd))))))"

text \<open>The derivative weights of the Radau-left family, computed through the view \<open>pd\<close>.\<close>

definition pd_GaussRadauLeft :: "params \<Rightarrow> view \<Rightarrow> view \<Rightarrow> int \<Rightarrow> real \<Rightarrow> real \<Rightarrow> view res" where
  "pd_GaussRadauLeft c pd z np alpha beta =
     bind_res (GammaFunction (of_int np + beta + 1)) (\<lambda>g1.
     bind_res (GammaFunction (of_int np)) (\<lambda>g2.
     bind_res (GammaFunction (beta + 2)) (\<lambda>g3.
     let pd0 = pd(0 := pow (- 1) (of_int (np - 1)) * g1 / (g2 * g3)) in
     bind_res (Some (JacobiPolynomialDerivative c (np - 1) (shift_view z) (shift_view pd0)
                       (np - 1) alpha (beta + 1))) (\<lambda>pd_plus_1.
     Some (Inr (for_up 1 np (\<lambda>i pd. pd(i := pd i * (1 + z i))) (unshift_view pd_plus_1)))))))"

definition Derivative_GaussRadauLeft ::
  "params \<Rightarrow> matrix \<Rightarrow> view \<Rightarrow> int \<Rightarrow> real \<Rightarrow> real \<Rightarrow> matrix res" where
  "Derivative_GaussRadauLeft c D z np alpha beta =
     (if np \<le> 0 then Some (Inr (upd2 D 0 0 0))
      else
        bind_res (pd_GaussRadauLeft c (D (np - 1)) z np alpha beta) (\<lambda>pd.
        Some (Inr (for_up 0 np
          (\<lambda>i D. upd2 (Derivative_offdiag z np i D) i i
                   (if i = 0 then
                      - (of_int np + alpha + beta + 1) * (of_int np - 1) / (2 * (beta + 2))
                    else (alpha - beta + 1 + (alpha + beta + 1) * z i) / (2 * (1 - z i * z i))))
          (D(np - 1 := pd))))))"

text \<open>The derivative weights of the Radau-right family.\<close>

definition pd_GaussRadauRight :: "params \<Rightarrow> view \<Rightarrow> view \<Rightarrow> int \<Rightarrow> real \<Rightarrow> real \<Rightarrow> view res" where
  "pd_GaussRadauRight c pd z np alpha beta =
     bind_res (Some (JacobiPolynomialDerivative c (np - 1) z pd (np - 1) (alpha + 1) beta)) (\<lambda>pd0.
     let pd1 = for_up 0 (np - 1) (\<lambda>i pd. pd(i := pd i * (1 - z i))) pd0 in
     bind_res (GammaFunction (of_int np + alpha + 1)) (\<lambda>g1.
     bind_res (GammaFunction (of_int np)) (\<lambda>g2.
     bind_res (GammaFunction (alpha + 2)) (\<lambda>g3.
     Some (Inr (pd1(np - 1 := - g1 / (g2 * g3))))))))"

definition Derivative_GaussRadauRight ::
  "params \<Rightarrow> matrix \<Rightarrow> view \<Rightarrow> int \<Rightarrow> real \<Rightarrow> real \<Rightarrow> matrix res" where
  "Derivative_GaussRadauRight c D z np alpha beta =
     (if np \<le> 0 then Some (Inr (upd2 D 0 0 0))
      else
        bind_res (pd_GaussRadauRight c (D (np - 1)) z np alpha beta) (\<lambda>pd.
        Some (Inr (for_up 0 np
          (\<lambda>i D. upd2 (Derivative_offdiag z np i D) i i
                   (if i = np - 1 then
                      (of_int np + alpha + beta + 1) * (of_int np - 1) / (2 * (alpha + 2))
                    else (alpha - beta - 1 + (alpha + beta + 1) * z i) / (2 * (1 - z i * z i))))
          (D(np - 1 := pd))))))"

text \<open>The derivative weights of the Lobatto family.\<close>

definition pd_GaussLobatto :: "params \<Rightarrow> view \<Rightarrow> view \<Rightarrow> int \<Rightarrow> real \<Rightarrow> real \<Rightarrow> view res" where
  "pd_GaussLobatto c pd z np alpha beta =
     bind_res (GammaFunction (of_int np + beta)) (\<lambda>g1.
     bind_res (GammaFunction (of_int np - 1)) (\<lambda>g2.
     bind_res (GammaFunction (beta + 2)) (\<lambda>g3.
     let pd0 = pd(0 := 2 * pow (- 1) (of_int np) * g1);
         pd1 = pd0(0 := pd0 0 / (g2 * g3))
     in
     bind_res (Some (JacobiPolynomialDerivative c (np - 2) (shift_view z) (shift_view pd1)
                       (np - 2) (alpha + 1) (beta + 1))) (\<lambda>pd_plus_1.
     let pd2 = for_up 1 (np - 1) (\<lambda>i pd. pd(i := pd i * (1 - z i * z i))) (unshift_view pd_plus_1) in
     bind_res (GammaFunction (of_int np + alpha)) (\<lambda>g4.
     let pd3 = pd2(np - 1 := - 2 * g4) in
     bind_res (GammaFunction (of_int np - 1)) (\<lambda>g5.
     bind_res (GammaFunction (alpha + 2)) (\<lambda>g6.
     Some (Inr (pd3(np - 1 := pd3 (np - 1) / (g5 * g6)))))))))))"

definition Derivative_GaussLobatto ::
  "params \<Rightarrow> matrix \<Rightarrow> view \<Rightarrow> int \<Rightarrow> real \<Rightarrow> real \<Rightarrow> matrix res" where
  "Derivative_GaussLobatto c D z np alpha beta =
     (if np \<le> 0 then Some (Inr (upd2 D 0 0 0))
      else
        bind_res (pd_GaussLobatto c (D (np - 1)) z np alpha beta) (\<lambda>pd.
        Some (Inr (for_up 0 np
          (\<lambda>i D. upd2 (Derivative_offdiag z np i D) i i
                   (if i = 0 then
                      (alpha - of_int (np - 1) * (of_int np + alpha + beta)) / (2 * (beta + 2))
                    else if i = np - 1 then
                      - (beta - of_int (np - 1) * (of_int np + alpha + beta)) / (2 * (alpha + 2))
                    else (alpha - beta + (alpha + beta) * z i) / (2 * (1 - z i * z i))))
          (D(np - 1 := pd))))))"

subsection \<open>The reference: derivative weights in a buffer of their own\<close>

text \<open>
  The same four routines with \<^verbatim>\<open>pd\<close> held in a separate buffer \<open>buf\<close> instead of the
  last row of \<open>D\<close>; the matrix is only written, never read.
\<close>

definition Derivative_offdiag_sep :: "view \<Rightarrow> view \<Rightarrow> int \<Rightarrow> matrix \<Rightarrow> matrix" where
  "Derivative_offdiag_sep z pd i D =
     for_up 0 i
       (\<lambda>j D. upd2 (upd2 D j i (pd j / (pd i * (z j - z i)))) i j (pd i / (pd j * (z i - z j))))
       D"

definition Derivative_Gauss_sep ::
  "params \<Rightarrow> view \<Rightarrow> matrix \<Rightarrow> view \<Rightarrow> int \<Rightarrow> real \<Rightarrow> real \<Rightarrow> matrix res" where
  "Derivative_Gauss_sep c buf D z np alpha beta =
     (if np \<le> 0 then Some (Inr (upd2 D 0 0 0))
      else
        bind_res (Some (JacobiPolynomialDerivative c np z buf np alpha beta)) (\<lambda>pd.
        Some (Inr (for_up 0 np
          (\<lambda>i D. upd2 (Derivative_offdiag_sep z pd i D) i i
                   ((alpha - beta + (alpha + beta + 2) * z i) / (2 * (1 - z i * z i))))
          D))))"

definition Derivative_GaussRadauLeft_sep ::
  "params \<Rightarrow> view \<Rightarrow> matrix \<Rightarrow> view \<Rightarrow> int \<Rightarrow> real \<Rightarrow> real \<Rightarrow> matrix res" where
  "Derivative_GaussRadauLeft_sep c buf D z np alpha beta =
     (if np \<le> 0 then Some (Inr (upd2 D 0 0 0))
      else
        bind_res (pd_GaussRadauLeft c buf z np alpha beta) (\<lambda>pd.
        Some (Inr (for_up 0 np
          (\<lambda>i D. upd2 (Derivative_offdiag_sep z pd i D) i i
                   (if i = 0 then
                      - (of_int np + alpha + beta + 1) * (of_int np - 1) / (2 * (beta + 2))
                    else (alpha - beta + 1 + (alpha + beta + 1) * z i) / (2 * (1 - z i * z i))))
          D))))"

definition Derivative_GaussRadauRight_sep ::
  "params \<Rightarrow> view \<Rightarrow> matrix \<Rightarrow> view \<Rightarrow> int \<Rightarrow> real \<Rightarrow> real \<Rightarrow> matrix res" where
  "Derivative_GaussRadauRight_sep c buf D z np alpha beta =
     (if np \<le> 0 then Some (Inr (upd2 D 0 0 0))
      else
        bind_res (pd_GaussRadauRight c buf z np alpha beta) (\<lambda>pd.
        Some (Inr (for_up 0 np
          (\<lambda>i D. upd2 (Derivative_offdiag_sep z pd i D) i i
                   (if i = np - 1 then
                      (of_int np + alpha + beta + 1) * (of_int np - 1) / (2 * (alpha + 2))
                    else (alpha - beta - 1 + (alpha + beta + 1) * z i) / (2 * (1 - z i * z i))))
          D))))"

definition Derivative_GaussLobatto_sep ::
  "params \<Rightarrow> view \<Rightarrow> matrix \<Rightarrow> view \<Rightarrow> int \<Rightarrow> real \<Rightarrow> real \<Rightarrow> matrix res" where
  "Derivative_GaussLobatto_sep c buf D z np alpha beta =
     (if np \<le> 0 then Some (Inr (upd2 D 0 0 0))
      else
        bind_res (pd_GaussLobatto c buf z np alpha beta) (\<lambda>pd.
        Some (Inr (for_up 0 np
          (\<lambda>i D. upd2 (Derivative_offdiag_sep z pd i D) i i
                   (if i = 0 then
                      (alpha - of_int (np - 1) * (of_int np + alpha + beta)) / (2 * (beta + 2))
                    else if i = np - 1 then
                      - (beta - of_int (np - 1) * (of_int np + alpha + beta)) / (2 * (alpha + 2))
                    else (alpha - beta + (alpha + beta) * z i) / (2 * (1 - z i * z i))))
          D))))"

subsection \<open>A predicate for the refinement proof\<close>

text \<open>
  The aliased matrix \<open>Da\<close> is the matrix \<open>Dr\<close> of the reference, except that the columns
  \<open>lo..np-1\<close> of its last row hold the derivative weights \<open>v\<close>.
\<close>

definition last_row_holds :: "int \<Rightarrow> view \<Rightarrow> int \<Rightarrow> matrix \<Rightarrow> matrix \<Rightarrow> bool" where
  "last_row_holds np v lo Da Dr \<longleftrightarrow>
     (\<forall>r c. Da r c = (if r = np - 1 \<and> lo \<le> c \<and> c < np then v c else Dr r c))"

section \<open>Loops\<close>

lemma for_up_empty: "hi \<le> lo \<Longrightarrow> for_up lo hi b s = s"
  by (simp add: for_up_def)

lemma for_up_step: "lo < hi \<Longrightarrow> for_up lo hi b s = for_up (lo + 1) hi b (b lo s)"
  by (simp add: for_up_def upto_rec1)

lemma for_up_last: "lo < hi \<Longrightarrow> for_up lo hi b s = b (hi - 1) (for_up lo (hi - 1) b s)"
  by (simp add: for_up_def upto_rec2)

text \<open>The invariant rule of the counting loop.\<close>

lemma for_up_invariant:
  assumes "P lo s"
    and "\<And>i t. lo \<le> i \<Longrightarrow> i < hi \<Longrightarrow> P i t \<Longrightarrow> P (i + 1) (b i t)"
    and "lo \<le> hi"
  shows "P hi (for_up lo hi b s)"
proof -
  have "\<And>h. h = lo + int k \<Longrightarrow> h \<le> hi \<Longrightarrow> P h (for_up lo h b s)" for k
  proof (induction k)
    case 0
    then show ?case using assms(1) by (simp add: for_up_empty)
  next
    case (Suc k)
    have "P (h - 1) (for_up lo (h - 1) b s)" using Suc by simp
    then have "P (h - 1 + 1) (b (h - 1) (for_up lo (h - 1) b s))"
      using Suc.prems by (intro assms(2)) auto
    moreover have "for_up lo h b s = b (h - 1) (for_up lo (h - 1) b s)"
      using Suc.prems by (intro for_up_last) auto
    ultimately show ?case by simp
  qed
  from this [of hi "nat (hi - lo)"] assms(3) show ?thesis by simp
qed

text \<open>A loop that writes entry \<open>i\<close> from the old entry \<open>i\<close> alone.\<close>

lemma for_up_write:
  "for_up lo hi (\<lambda>i p. p(i := g i (p i))) p = (\<lambda>i. if lo \<le> i \<and> i < hi then g i (p i) else p i)"
proof (cases "lo \<le> hi")
  case True
  show ?thesis
    by (rule for_up_invariant
          [where P = "\<lambda>h q. q = (\<lambda>i. if lo \<le> i \<and> i < h then g i (p i) else p i)"])
       (use True in \<open>auto simp: fun_eq_iff\<close>)
next
  case False
  then show ?thesis by (auto simp: for_up_empty fun_eq_iff)
qed

section \<open>JacobiPolynomial: the abort tests\<close>

text \<open>
  C1. A call of \<open>JacobiPolynomial\<close> of degree \<open>n \<ge> 2\<close> with a derivative view and no value
  view should abort (\<open>Misuse\<close>: "polyi view needed to compute polyd view"). The test
  of the source is \<^verbatim>\<open>polyd.data() && !polyd.data()\<close>, which never holds: for every
  degree \<open>2 + k\<close> the call returns normally and leaves both views as they were.
\<close>

theorem JacobiPolynomial_deriv_without_value_returns:
  "JacobiPolynomial c np z None (Some pd) (2 + int k) alpha beta = Inr (None, Some pd)"
  by (simp add: JacobiPolynomial_def)

text \<open>
  C2 (as amended). With at least one point (\<open>np \<noteq> 0\<close>) and a value view supplied, a degree
  \<open>n\<close> above \<open>maxOrder = 2 * MaxPolylibPoint - 1\<close> aborts with \<open>OrderExceeded\<close>
  (\<open>MaxPolylibPoint\<close> being at least 1, so that \<open>n \<ge> 2\<close>).
\<close>

theorem JacobiPolynomial_order_exceeded:
  "np \<noteq> 0 \<Longrightarrow> polyi \<noteq> None \<Longrightarrow> 1 \<le> MaxPolylibPoint c \<Longrightarrow> 2 * MaxPolylibPoint c - 1 < n
    \<Longrightarrow> JacobiPolynomial c np z polyi polyd n alpha beta = Inl OrderExceeded"
  by (auto simp: JacobiPolynomial_def)

theorem JacobiPolynomial_order_exceeded_witness:
  "JacobiPolynomial \<lparr>MaxPolylibPoint = 32, MaxPolylibIteration = 50, tolerence = 1 / 1000000000000\<rparr>
      1 (\<lambda>_. 0) (Some (\<lambda>_. 0)) None 64 0 0 = Inl OrderExceeded"
  using JacobiPolynomial_order_exceeded
    [of 1 "Some (\<lambda>_. 0)" "\<lparr>MaxPolylibPoint = 32, MaxPolylibIteration = 50, tolerence = 1 / 1000000000000\<rparr>"
        64 "\<lambda>_. 0" None 0 0]
  by simp

text \<open>
  C2 as stated fails: with \<open>maxOrder = 63\<close> and degree 64, a call with no point
  (\<^verbatim>\<open>if (!np) return;\<close>) and a call with no value view
  (\<^verbatim>\<open>if (!polyi.data()) return;\<close>) both return normally.
\<close>

theorem JacobiPolynomial_order_exceeded_counterexample:
  "2 * MaxPolylibPoint \<lparr>MaxPolylibPoint = 32, MaxPolylibIteration = 50, tolerence = 1 / 1000000000000\<rparr> - 1 < 64
   \<and> JacobiPolynomial \<lparr>MaxPolylibPoint = 32, MaxPolylibIteration = 50, tolerence = 1 / 1000000000000\<rparr>
        0 (\<lambda>_. 0) (Some (\<lambda>_. 0)) None 64 0 0 = Inr (Some (\<lambda>_. 0), None)
   \<and> JacobiPolynomial \<lparr>MaxPolylibPoint = 32, MaxPolylibIteration = 50, tolerence = 1 / 1000000000000\<rparr>
        1 (\<lambda>_. 0) None None 64 0 0 = Inr (None, None)"
  by (simp add: JacobiPolynomial_def)

section \<open>Degenerate requests\<close>

text \<open>
  C10. For degree \<open>n = 0\<close> both zero finders (and the dispatcher, for either value of the
  flag) return at once with the output view \<open>z\<close> unchanged.
\<close>

theorem JacobiZeros_degree_zero_unchanged:
  "JacobiZerosPolyDeflation c z 0 alpha beta = Inr z
   \<and> JacobiZerosTriDiagonal c z 0 alpha beta = Some (Inr z)
   \<and> JacobiZeros c defl z 0 alpha beta = Some (Inr z)"
  by (simp add: JacobiZerosPolyDeflation_def JacobiZerosTriDiagonal_def JacobiZeros_def)

text \<open>
  C5. For \<open>np = 1\<close> the Radau-left, Radau-right and Lobatto cubature routines return
  normally, with \<open>z(0) = 0\<close> and \<open>w(0) = 2\<close> and nothing else written.
\<close>

theorem Cubature_single_point:
  "Cubature_GaussRadauLeft c defl z w 1 alpha beta = Some (Inr (z(0 := 0), w(0 := 2)))
   \<and> Cubature_GaussRadauRight c defl z w 1 alpha beta = Some (Inr (z(0 := 0), w(0 := 2)))
   \<and> Cubature_GaussLobatto c defl z w 1 alpha beta = Some (Inr (z(0 := 0), w(0 := 2)))"
  by (simp add: Cubature_GaussRadauLeft_def Cubature_GaussRadauRight_def Cubature_GaussLobatto_def)

section \<open>Rounding\<close>

text \<open>
  What is used of \<open>fl\<close>: the scaled magnitude is in \<open>[2^52, 2^53)\<close>, a number with a
  significand of at most 53 bits is not changed, every value of \<open>fl\<close> is such a number, and
  the relative error is at most \<open>2^-53\<close>.
\<close>

lemma rne_of_int: "rne (of_int j) = j"
  by (simp add: rne_def)

lemma rne_near: "\<bar>of_int (rne y) - y\<bar> \<le> 1 / 2"
  unfolding rne_def by (auto simp: abs_if) linarith+

lemma expo_bounds:
  assumes "x \<noteq> 0"
  shows "2 powi (expo x + 52) \<le> \<bar>x\<bar> \<and> \<bar>x\<bar> < 2 powi (expo x + 53)"
  using assms
proof (induction x rule: expo.induct)
  case (1 x)
  show ?case
  proof (cases "2 ^ 53 \<le> \<bar>x\<bar>")
    case True
    have e: "expo x = expo (x / 2) + 1" using True "1.prems" by (subst expo.simps) simp
    have "x / 2 \<noteq> 0" using "1.prems" by simp
    from "1.IH"(1) [OF "1.prems" True this]
    have "2 powi (expo (x / 2) + 52) \<le> \<bar>x\<bar> / 2" "\<bar>x\<bar> / 2 < 2 powi (expo (x / 2) + 53)"
      by simp_all
    then have "2 * 2 powi (expo (x / 2) + 52) \<le> \<bar>x\<bar>" "\<bar>x\<bar> < 2 * 2 powi (expo (x / 2) + 53)"
      by simp_all
    moreover have "2 * 2 powi (expo (x / 2) + 52) = (2::real) powi (expo x + 52)"
      "2 * 2 powi (expo (x / 2) + 53) = (2::real) powi (expo x + 53)"
      unfolding e by (simp_all add: power_int_add)
    ultimately show ?thesis by simp
  next
    case False
    show ?thesis
    proof (cases "\<bar>x\<bar> < 2 ^ 52")
      case True
      have e: "expo x = expo (x * 2) - 1" using True False "1.prems" by (subst expo.simps) simp
      have "x * 2 \<noteq> 0" using "1.prems" by simp
      from "1.IH"(2) [OF "1.prems" False True this]
      have "2 powi (expo (x * 2) + 52) \<le> \<bar>x\<bar> * 2" "\<bar>x\<bar> * 2 < 2 powi (expo (x * 2) + 53)"
        by (simp_all add: abs_mult)
      then have "2 powi (expo (x * 2) + 52) / 2 \<le> \<bar>x\<bar>" "\<bar>x\<bar> < 2 powi (expo (x * 2) + 53) / 2"
        by simp_all
      moreover have "2 powi (expo (x * 2) + 52) / 2 = (2::real) powi (expo x + 52)"
        "2 powi (expo (x * 2) + 53) / 2 = (2::real) powi (expo x + 53)"
        unfolding e by (simp_all add: power_int_add power_int_diff)
      ultimately show ?thesis by simp
    next
      case n: False
      have e: "expo x = 0" using n False "1.prems" by (subst expo.simps) simp
      show ?thesis unfolding e using n False by simp
    qed
  qed
qed

lemma fl_0: "fl 0 = 0"
  by (simp add: fl_def rne_def)

lemma fl_exact:
  assumes "\<bar>m\<bar> < 2 ^ 53"
  shows "fl (of_int m * 2 powi q) = of_int m * 2 powi q"
proof (cases "m = 0")
  case True
  then show ?thesis by (simp add: fl_0)
next
  case False
  define x :: real where "x = of_int m * 2 powi q"
  define E where "E = expo x"
  have x0: "x \<noteq> 0" using False by (simp add: x_def)
  have "\<bar>x\<bar> = of_int \<bar>m\<bar> * 2 powi q" by (simp add: x_def abs_mult)
  also have "\<dots> < 2 ^ 53 * 2 powi q"
  proof -
    have "real_of_int \<bar>m\<bar> < real_of_int (2 ^ 53)" using assms by (simp only: of_int_less_iff)
    then have "real_of_int \<bar>m\<bar> < 2 ^ 53" by simp
    then show ?thesis by (simp add: mult_strict_right_mono)
  qed
  also have "\<dots> = 2 powi (53 + q)" by (simp add: power_int_add)
  finally have up: "\<bar>x\<bar> < 2 powi (53 + q)" .
  have "2 powi (E + 52) \<le> \<bar>x\<bar>" unfolding E_def using expo_bounds [OF x0] by simp
  with up have "(2::real) powi (E + 52) < 2 powi (53 + q)" by simp
  then have "E + 52 < 53 + q"
    by (meson power_int_increasing not_less one_le_numeral)
  then have d: "0 \<le> q - E" by simp
  define d where "d = nat (q - E)"
  have qd: "q = int d + E" using d by (simp add: d_def)
  have "x / 2 powi E = of_int m * 2 powi (int d)"
    unfolding x_def qd by (simp add: power_int_add)
  also have "\<dots> = of_int (m * 2 ^ d)" by (simp add: power_int_of_nat)
  finally have y: "x / 2 powi E = of_int (m * 2 ^ d)" .
  have "fl x = of_int (rne (x / 2 powi E)) * 2 powi E"
    by (simp add: fl_def E_def)
  also have "\<dots> = of_int (m * 2 ^ d) * 2 powi E"
    unfolding y rne_of_int ..
  also have "\<dots> = of_int m * (2 powi (int d) * 2 powi E)" by (simp add: power_int_of_nat)
  also have "2 powi (int d) * 2 powi E = (2::real) powi q"
    unfolding qd by (simp add: power_int_add)
  finally show ?thesis by (simp add: x_def)
qed

lemma fl_range: "\<exists>M e. \<bar>M\<bar> \<le> 2 ^ 53 \<and> fl x = of_int M * 2 powi e"
proof (cases "x = 0")
  case True
  then have "\<bar>0::int\<bar> \<le> 2 ^ 53 \<and> fl x = of_int 0 * 2 powi 0" by (simp add: fl_0)
  then show ?thesis by blast
next
  case False
  define E where "E = expo x"
  define y where "y = x / 2 powi E"
  have "\<bar>x\<bar> < 2 powi (E + 53)" unfolding E_def using expo_bounds [OF False] by simp
  then have "\<bar>y\<bar> < 2 powi (E + 53) / 2 powi E"
    by (simp add: y_def abs_divide divide_strict_right_mono)
  also have "\<dots> = 2 powi ((E + 53) - E)" by (rule power_int_diff [symmetric]) simp
  also have "\<dots> = 2 ^ 53" by simp
  finally have yb: "\<bar>y\<bar> < 2 ^ 53" .
  have "\<bar>real_of_int (rne y)\<bar> \<le> \<bar>real_of_int (rne y) - y\<bar> + \<bar>y\<bar>" by linarith
  also have "\<dots> < 1 / 2 + 2 ^ 53" using rne_near [of y] yb by linarith
  finally have "real_of_int \<bar>rne y\<bar> < real_of_int (2 ^ 53 + 1)" by simp
  then have "\<bar>rne y\<bar> < 2 ^ 53 + 1" by (simp only: of_int_less_iff)
  then have "\<bar>rne y\<bar> \<le> 2 ^ 53" by simp
  moreover have "fl x = of_int (rne y) * 2 powi E"
    by (simp add: fl_def E_def y_def)
  ultimately show ?thesis by blast
qed

lemma fl_error: "\<bar>fl x - x\<bar> \<le> \<bar>x\<bar> / 2 ^ 53"
proof (cases "x = 0")
  case True
  then show ?thesis by (simp add: fl_0)
next
  case False
  define E where "E = expo x"
  define y where "y = x / 2 powi E"
  have x: "x = y * 2 powi E" by (simp add: y_def)
  have f: "fl x = of_int (rne y) * 2 powi E"
    by (simp add: fl_def E_def y_def)
  have "fl x - x = of_int (rne y) * 2 powi E - y * 2 powi E"
    using f x by linarith
  then have "fl x - x = (of_int (rne y) - y) * 2 powi E"
    by (simp add: algebra_simps)
  then have "\<bar>fl x - x\<bar> = \<bar>of_int (rne y) - y\<bar> * 2 powi E"
    by (simp add: abs_mult)
  also have "\<dots> \<le> 1 / 2 * 2 powi E"
    by (rule mult_right_mono [OF rne_near]) simp
  also have "\<dots> = 2 powi (E + 52) / 2 ^ 53"
    by (simp add: power_int_add)
  also have "\<dots> \<le> \<bar>x\<bar> / 2 ^ 53"
    using expo_bounds [OF False] by (simp add: E_def divide_right_mono)
  finally show ?thesis .
qed

lemma fl_exact_le:
  assumes "\<bar>m\<bar> \<le> 2 ^ 53"
  shows "fl (of_int m * 2 powi q) = of_int m * 2 powi q"
proof (cases "\<bar>m\<bar> < 2 ^ 53")
  case True
  then show ?thesis by (rule fl_exact)
next
  case False
  with assms have "m = 2 ^ 53 \<or> m = - (2 ^ 53)" by auto
  then have "real_of_int m * 2 powi q = of_int (m div 2 ^ 53) * 2 powi (q + 53)"
    by (auto simp: power_int_add)
  moreover have "\<bar>m div 2 ^ 53\<bar> < 2 ^ 53" using \<open>m = 2 ^ 53 \<or> m = - (2 ^ 53)\<close> by auto
  ultimately show ?thesis using fl_exact [of "m div 2 ^ 53" "q + 53"] by simp
qed

lemma fl_idem: "fl (fl x) = fl x"
proof -
  from fl_range [of x] obtain M e where "\<bar>M\<bar> \<le> 2 ^ 53" "fl x = of_int M * 2 powi e" by blast
  then show ?thesis using fl_exact_le [of M e] by simp
qed

lemma fl_twice: "fl (- (2 * fl x)) = - (2 * fl x)"
proof -
  from fl_range [of x] obtain M e where M: "\<bar>M\<bar> \<le> 2 ^ 53" "fl x = of_int M * 2 powi e" by blast
  have "- (2 * fl x) = of_int (- M) * 2 powi (e + 1)"
    unfolding M(2) by (simp add: power_int_add)
  moreover have "\<bar>- M\<bar> \<le> 2 ^ 53" using M(1) by simp
  ultimately show ?thesis using fl_exact_le [of "- M" "e + 1"] by simp
qed


lemma fl_half_int: "\<bar>m\<bar> < 2 ^ 52 \<Longrightarrow> fl (of_int m + 1 / 2) = of_int m + 1 / 2"
proof -
  assume "\<bar>m\<bar> < 2 ^ 52"
  then have "\<bar>2 * m + 1\<bar> < 2 ^ 53" by simp
  from fl_exact [OF this, of "- 1"] show ?thesis
    by (simp add: power_int_minus field_simps)
qed

lemma fl_int: "\<bar>m\<bar> < 2 ^ 53 \<Longrightarrow> fl (of_int m) = of_int m"
  using fl_exact [of m 0] by simp

section \<open>GammaFunction: the values\<close>

text \<open>
  Both loops, started from a counter \<open>k\<close> and a value \<open>t\<close> whose predecessors \<open>t - i\<close> are
  doubles, multiply in turn by \<open>t - 1, \<dots>, t - k\<close> and round each product.
\<close>

lemma foldl_shift:
  "foldl (\<lambda>g i. f g (Suc i)) g [a..<b] = foldl f g [Suc a..<Suc b]"
proof -
  have "[Suc a..<Suc b] = map Suc [a..<b]" by (simp add: map_Suc_upt)
  then show ?thesis by (simp add: foldl_map)
qed

lemma Gamma_half_loop_products:
  assumes "k < 2 ^ 32" "\<And>i. 1 \<le> i \<Longrightarrow> i \<le> k \<Longrightarrow> fl (t - real i) = t - real i"
  shows "Gamma_half_loop (of_nat k) t g = foldl (\<lambda>g i. fl (g * (t - real i))) g [1..<Suc k]"
  using assms
proof (induction k arbitrary: t g)
  case 0
  show ?case by (subst Gamma_half_loop.simps) simp
next
  case (Suc k)
  have nz: "(of_nat (Suc k) :: 32 word) \<noteq> 0"
    by (rule of_nat_neq_0) (use Suc.prems(1) in simp_all)
  have t1: "fl (t - 1) = t - 1" using Suc.prems(2) [of 1] by simp
  have "Gamma_half_loop (of_nat (Suc k)) t g = Gamma_half_loop (of_nat k) (t - 1) (fl (g * (t - 1)))"
    by (subst Gamma_half_loop.simps) (use nz t1 in simp)
  also have "\<dots> = foldl (\<lambda>g i. fl (g * (t - 1 - real i))) (fl (g * (t - 1))) [1..<Suc k]"
  proof (rule Suc.IH)
    show "k < 2 ^ 32" using Suc.prems(1) by simp
    fix i assume "1 \<le> i" "i \<le> k"
    then show "fl (t - 1 - real i) = t - 1 - real i"
      using Suc.prems(2) [of "Suc i"] by (simp add: algebra_simps)
  qed
  also have "\<dots> = foldl (\<lambda>g i. fl (g * (t - real (Suc i)))) (fl (g * (t - 1))) [1..<Suc k]"
    by (simp add: algebra_simps)
  also have "\<dots> = foldl (\<lambda>g i. fl (g * (t - real i))) (fl (g * (t - 1))) [Suc 1..<Suc (Suc k)]"
    by (rule foldl_shift)
  also have "\<dots> = foldl (\<lambda>g i. fl (g * (t - real i))) g (1 # [Suc 1..<Suc (Suc k)])"
    by simp
  also have "1 # [Suc 1..<Suc (Suc k)] = [1..<Suc (Suc k)]"
    by (rule upt_conv_Cons [symmetric]) simp
  finally show ?case .
qed

lemma Gamma_int_loop_products:
  assumes "Suc k < 2 ^ 32" "\<And>i. 1 \<le> i \<Longrightarrow> i \<le> k \<Longrightarrow> fl (t - real i) = t - real i"
  shows "Gamma_int_loop (of_nat (Suc k)) t g = foldl (\<lambda>g i. fl (g * (t - real i))) g [1..<Suc k]"
  using assms
proof (induction k arbitrary: t g)
  case 0
  show ?case by (subst Gamma_int_loop.simps) simp
next
  case (Suc k)
  have nz: "(of_nat (Suc k) :: 32 word) \<noteq> 0"
    by (rule of_nat_neq_0) (use Suc.prems(1) in simp_all)
  have t1: "fl (t - 1) = t - 1" using Suc.prems(2) [of 1] by simp
  have "Gamma_int_loop (of_nat (Suc (Suc k))) t g = Gamma_int_loop (of_nat (Suc k)) (t - 1) (fl (g * (t - 1)))"
    by (subst Gamma_int_loop.simps) (use nz t1 in simp)
  also have "\<dots> = foldl (\<lambda>g i. fl (g * (t - 1 - real i))) (fl (g * (t - 1))) [1..<Suc k]"
  proof (rule Suc.IH)
    show "Suc k < 2 ^ 32" using Suc.prems(1) by simp
    fix i assume "1 \<le> i" "i \<le> k"
    then show "fl (t - 1 - real i) = t - 1 - real i"
      using Suc.prems(2) [of "Suc i"] by (simp add: algebra_simps)
  qed
  also have "\<dots> = foldl (\<lambda>g i. fl (g * (t - real (Suc i)))) (fl (g * (t - 1))) [1..<Suc k]"
    by (simp add: algebra_simps)
  also have "\<dots> = foldl (\<lambda>g i. fl (g * (t - real i))) (fl (g * (t - 1))) [Suc 1..<Suc (Suc k)]"
    by (rule foldl_shift)
  also have "\<dots> = foldl (\<lambda>g i. fl (g * (t - real i))) g (1 # [Suc 1..<Suc (Suc k)])"
    by simp
  also have "1 # [Suc 1..<Suc (Suc k)] = [1..<Suc (Suc k)]"
    by (rule upt_conv_Cons [symmetric]) simp
  finally show ?case .
qed

lemma sint_of_nat_32: "k < 2 ^ 31 \<Longrightarrow> sint (of_nat k :: 32 word) = int k"
proof -
  assume "k < 2 ^ 31"
  then have "int k < int (2 ^ 31)" by (simp only: of_nat_less_iff)
  then have "int k < 2 ^ 31" by simp
  then have "signed_take_bit 31 (int k) = int k"
    by (intro signed_take_bit_int_eq_self) simp_all
  moreover have "sint (word_of_int (int k) :: 32 word) = signed_take_bit 31 (int k)"
    by (simp only: sint_sbintrunc') simp
  ultimately show ?thesis by simp
qed

lemma to_ordinal_nat: "k < 2 ^ 31 \<Longrightarrow> to_ordinal (real k) = of_nat k"
proof -
  assume "k < 2 ^ 31"
  then have "real k < 2147483648" by simp
  then show ?thesis by (simp add: to_ordinal_def)
qed

lemma to_ordinal_half: "k < 2 ^ 31 \<Longrightarrow> to_ordinal (real k + 1 / 2) = of_nat k"
proof -
  assume "k < 2 ^ 31"
  then have "real k + 1 \<le> 2147483648" by simp
  then have r: "real k + 1 / 2 < 2147483648" by simp
  have "\<lfloor>real k + 1 / 2\<rfloor> = int k" by (rule floor_unique) simp_all
  with r show ?thesis by (simp add: to_ordinal_def)
qed

text \<open>
  Up to \<open>22!\<close> no product is rounded: each is a divisor of \<open>22!\<close>, whose odd part is below
  \<open>2^53\<close>.
\<close>

lemma odd_part_ex: "0 < (n::nat) \<Longrightarrow> \<exists>s r. odd r \<and> n = r * 2 ^ s"
proof (induction n rule: less_induct)
  case (less n)
  show ?case
  proof (cases "odd n")
    case True
    then have "odd n \<and> n = n * 2 ^ 0" by simp
    then show ?thesis by blast
  next
    case False
    then obtain m where m: "n = 2 * m" by (auto elim: evenE)
    with less.prems have "m < n" "0 < m" by simp_all
    from less.IH [OF this] obtain s r where "odd r" "m = r * 2 ^ s" by blast
    with m have "odd r \<and> n = r * 2 ^ Suc s" by simp
    then show ?thesis by blast
  qed
qed

lemma fact_22: "fact 22 = (2143861251406875 * 2 ^ 19 :: nat)"
  by (simp add: fact_numeral)

lemma fl_dvd_fact_22:
  assumes "n dvd (fact 22 :: nat)"
  shows "fl (real n) = real n"
proof -
  have "0 < n" using assms by (meson dvd_pos_nat fact_gt_zero)
  from odd_part_ex [OF this] obtain s r where r: "odd r" "n = r * 2 ^ s" by blast
  then have "r dvd n" by simp
  from this assms have "r dvd (fact 22 :: nat)" by (rule dvd_trans)
  then have "r dvd 2143861251406875 * 2 ^ 19" unfolding fact_22 .
  moreover have "coprime r (2 ^ 19)"
    unfolding coprime_power_right_iff coprime_right_2_iff_odd using r(1) by blast
  ultimately have "r dvd 2143861251406875" by (simp only: coprime_dvd_mult_left_iff)
  then have "r \<le> 2143861251406875" by (rule dvd_imp_le) simp
  then have "\<bar>int r\<bar> < 2 ^ 53" by simp
  from fl_exact [OF this, of "int s"] show ?thesis
    unfolding r(2) by (simp add: power_int_of_nat)
qed

lemma Gamma_products_exact:
  assumes "k \<le> 22" "j \<le> k"
  shows "\<exists>P. foldl (\<lambda>g i. fl (g * (real (Suc k) - real i))) 1 [1..<Suc j] = real P
              \<and> P * fact (k - j) = fact k"
  using assms(2)
proof (induction j)
  case 0
  have "foldl (\<lambda>g i. fl (g * (real (Suc k) - real i))) 1 [1..<Suc 0] = real 1 \<and> 1 * fact (k - 0) = (fact k :: nat)"
    by simp
  then show ?case by blast
next
  case (Suc j)
  then have "j \<le> k" by simp
  from Suc.IH [OF this] obtain P where
    P: "foldl (\<lambda>g i. fl (g * (real (Suc k) - real i))) 1 [1..<Suc j] = real P"
    and Pf: "P * fact (k - j) = fact k" by blast
  have kj: "k - j = Suc (k - Suc j)" using Suc.prems by simp
  obtain m where m: "k - j = Suc m" "k - Suc j = m" using kj by simp
  have "(fact (k - j) :: nat) = (k - j) * fact (k - Suc j)"
    unfolding m by simp
  with Pf have f: "P * (k - j) * fact (k - Suc j) = fact k"
    by (simp add: mult.assoc)
  then have "P * (k - j) dvd (fact k :: nat)" by (metis dvd_triv_left)
  moreover have "(fact k :: nat) dvd fact 22" by (rule fact_dvd [OF assms(1)])
  ultimately have "P * (k - j) dvd (fact 22 :: nat)" by (rule dvd_trans)
  then have ex: "fl (real (P * (k - j))) = real (P * (k - j))" by (rule fl_dvd_fact_22)
  have "real (Suc k) - real (Suc j) = real (k - j)"
    using Suc.prems by (simp add: of_nat_diff)
  then have "foldl (\<lambda>g i. fl (g * (real (Suc k) - real i))) 1 [1..<Suc (Suc j)]
               = fl (real P * real (k - j))"
    using P by (simp del: of_nat_Suc)
  also have "\<dots> = real (P * (k - j))" using ex by simp
  finally show ?case using f by blast
qed

lemma Gamma_products_fact:
  assumes "k \<le> 22"
  shows "foldl (\<lambda>g i. fl (g * (real (Suc k) - real i))) 1 [1..<Suc k] = fact k"
proof -
  from Gamma_products_exact [OF assms order_refl] obtain P where
    "foldl (\<lambda>g i. fl (g * (real (Suc k) - real i))) 1 [1..<Suc k] = real P" "P * fact (k - k) = fact k"
    by blast
  then show ?thesis by simp
qed

lemma GammaFunction_half:
  assumes "k < 2 ^ 31"
  shows "GammaFunction (real k + 1 / 2) =
           Some (Inr (foldl (\<lambda>g i. fl (g * (real k + 1 / 2 - real i))) (fl (sqrt (fl pi))) [1..<Suc k]))"
proof -
  have ne: "real k + 1 / 2 \<noteq> - (1 / 2)" "real k + 1 / 2 \<noteq> 0"
    by (smt (verit) of_nat_0_le_iff divide_pos_pos)+
  have k32: "k < 2 ^ 32" using assms by simp
  have ex: "fl (real k + 1 / 2 - real i) = real k + 1 / 2 - real i" if "1 \<le> i" "i \<le> k" for i
  proof -
    have "int k < 2 ^ 31" using assms by (metis of_nat_less_iff of_nat_numeral of_nat_power)
    then have "\<bar>int k - int i\<bar> < 2 ^ 52" using that by simp
    from fl_half_int [OF this] show ?thesis by (simp add: algebra_simps)
  qed
  show ?thesis
    unfolding GammaFunction_def to_ordinal_half [OF assms] sint_of_nat_32 [OF assms]
    using ne by (simp add: Gamma_half_loop_products [OF k32 ex])
qed

lemma GammaFunction_posint:
  assumes "Suc k < 2 ^ 31"
  shows "GammaFunction (real (Suc k)) =
           Some (Inr (foldl (\<lambda>g i. fl (g * (real (Suc k) - real i))) 1 [1..<Suc k]))"
proof -
  have ne: "real (Suc k) \<noteq> - (1 / 2)" "real (Suc k) \<noteq> 0"
    by (smt (verit) of_nat_0_le_iff divide_pos_pos, simp)
  have k32: "Suc k < 2 ^ 32" using assms by simp
  have ex: "fl (real (Suc k) - real i) = real (Suc k) - real i" if "1 \<le> i" "i \<le> k" for i
  proof -
    have "int (Suc k) < 2 ^ 31" using assms by (metis of_nat_less_iff of_nat_numeral of_nat_power)
    then have "\<bar>int (Suc k) - int i\<bar> < 2 ^ 53" using that by simp
    from fl_int [OF this] show ?thesis by simp
  qed
  show ?thesis
    unfolding GammaFunction_def to_ordinal_nat [OF assms] sint_of_nat_32 [OF assms]
    using ne by (simp add: Gamma_int_loop_products [OF k32 ex] del: of_nat_Suc)
qed

lemma GammaFunction_fact:
  assumes "k \<le> 22"
  shows "GammaFunction (real (Suc k)) = Some (Inr (fact k))"
proof -
  have "Suc k < 2 ^ 31" using assms by simp
  from GammaFunction_posint [OF this] show ?thesis
    unfolding Gamma_products_fact [OF assms] .
qed

lemma GammaFunction_minus_half: "GammaFunction (- 0.5) = Some (Inr (- 2 * fl (sqrt (fl pi))))"
  by (simp add: GammaFunction_def fl_twice)

lemma sint_to_ordinal:
  "sint (to_ordinal x) =
     (if - 2147483649 < x \<and> x < 2147483648 then (if 0 \<le> x then \<lfloor>x\<rfloor> else \<lceil>x\<rceil>) else - 2147483648)"
proof (cases "- 2147483649 < x \<and> x < 2147483648")
  case False
  have "sint (word_of_int (- 2147483648) :: 32 word) = signed_take_bit 31 (- 2147483648)"
    by (simp only: sint_sbintrunc') simp
  also have "\<dots> = - 2147483648" by (rule signed_take_bit_int_eq_self) simp_all
  finally show ?thesis unfolding to_ordinal_def if_not_P [OF False] .
next
  case True
  define t where "t = (if 0 \<le> x then \<lfloor>x\<rfloor> else \<lceil>x\<rceil>)"
  have lo: "- 2147483648 \<le> t"
  proof (cases "0 \<le> x")
    case True
    then show ?thesis by (simp add: t_def)
  next
    case False
    have "- 2147483649 < \<lceil>x\<rceil>" using True by linarith
    then show ?thesis using False by (simp add: t_def)
  qed
  have hi: "t < 2147483648"
  proof (cases "0 \<le> x")
    case c: True
    have "\<lfloor>x\<rfloor> < 2147483648" using True by linarith
    then show ?thesis using c by (simp add: t_def)
  next
    case False
    then have "\<lceil>x\<rceil> \<le> 0" by linarith
    then show ?thesis using False by (simp add: t_def)
  qed
  have "sint (word_of_int t :: 32 word) = signed_take_bit 31 t"
    by (simp only: sint_sbintrunc') simp
  also have "\<dots> = t" by (rule signed_take_bit_int_eq_self) (use lo hi in simp_all)
  finally show ?thesis using True by (simp add: to_ordinal_def t_def)
qed

lemma GammaFunction_invalid:
  assumes "frac x \<noteq> 0" "frac x \<noteq> 1 / 2"
  shows "GammaFunction x = Some (Inl InvalidDomain)"
proof -
  have a: "x \<noteq> - (1 / 2)" using assms(2) by (auto simp: frac_def) 
  have b: "x \<noteq> 0" using assms(1) by auto
  have c: "x - of_int (sint (to_ordinal x)) \<noteq> 1 / 2 \<and> x - of_int (sint (to_ordinal x)) \<noteq> 0"
  proof (cases "- 2147483649 < x \<and> x < 2147483648")
    case False
    then show ?thesis unfolding sint_to_ordinal by auto
  next
    case r: True
    show ?thesis
    proof (cases "0 \<le> x")
      case True
      then show ?thesis using assms r unfolding sint_to_ordinal by (simp add: frac_def)
    next
      case False
      have "x \<noteq> of_int \<lfloor>x\<rfloor>" using assms(1) by (simp add: frac_def)
      then have "of_int \<lceil>x\<rceil> = of_int \<lfloor>x\<rfloor> + (1::real)" by (simp add: ceiling_altdef)
      moreover have "frac x < 1" "0 \<le> frac x" by (simp_all add: frac_lt_1)
      ultimately show ?thesis using False assms r unfolding sint_to_ordinal by (simp add: frac_def)
    qed
  qed
  show ?thesis using a b c by (simp add: GammaFunction_def)
qed

lemma GammaFunction_out_of_range:
  assumes "2147483648 \<le> x"
  shows "GammaFunction x = Some (Inl InvalidDomain)"
proof -
  have "x - of_int (sint (to_ordinal x)) = x + 2147483648"
    unfolding sint_to_ordinal using assms by simp
  then show ?thesis using assms by (simp add: GammaFunction_def)
qed

lemma sqrt_pi_double: "\<bar>fl (sqrt (fl pi)) - sqrt pi\<bar> \<le> sqrt pi / 2 ^ 51"
proof -
  define u :: real where "u = 1 / 2 ^ 53"
  have u: "0 < u" "u \<le> 1" by (simp_all add: u_def)
  have p: "\<bar>fl pi - pi\<bar> \<le> pi * u" using fl_error [of pi] by (simp add: u_def)
  then have pos: "0 \<le> fl pi" using u pi_gt_zero
    by (smt (verit) mult_left_le)
  have sp: "0 < sqrt pi" by simp
  have "\<bar>sqrt (fl pi) - sqrt pi\<bar> * (sqrt (fl pi) + sqrt pi) = \<bar>(sqrt (fl pi) - sqrt pi) * (sqrt (fl pi) + sqrt pi)\<bar>"
    using pos sp by (simp add: abs_mult)
  also have "(sqrt (fl pi) - sqrt pi) * (sqrt (fl pi) + sqrt pi) = fl pi - pi"
    using pos by (simp add: algebra_simps)
  finally have "\<bar>sqrt (fl pi) - sqrt pi\<bar> * (sqrt (fl pi) + sqrt pi) \<le> pi * u" using p by simp
  moreover have "\<bar>sqrt (fl pi) - sqrt pi\<bar> * sqrt pi \<le> \<bar>sqrt (fl pi) - sqrt pi\<bar> * (sqrt (fl pi) + sqrt pi)"
    using pos by (simp add: mult_left_mono)
  ultimately have "\<bar>sqrt (fl pi) - sqrt pi\<bar> * sqrt pi \<le> pi * u" by linarith
  moreover have "pi * u = sqrt pi * u * sqrt pi" by simp
  ultimately have "\<bar>sqrt (fl pi) - sqrt pi\<bar> * sqrt pi \<le> sqrt pi * u * sqrt pi" by (simp only:)
  then have a: "\<bar>sqrt (fl pi) - sqrt pi\<bar> \<le> sqrt pi * u"
    by (rule mult_right_le_imp_le) (rule sp)
  have "\<bar>fl (sqrt (fl pi)) - sqrt (fl pi)\<bar> \<le> \<bar>sqrt (fl pi)\<bar> * u"
    using fl_error [of "sqrt (fl pi)"] by (simp add: u_def)
  also have "\<bar>sqrt (fl pi)\<bar> \<le> sqrt pi + sqrt pi * u" using a sp by linarith
  finally have b: "\<bar>fl (sqrt (fl pi)) - sqrt (fl pi)\<bar> \<le> (sqrt pi + sqrt pi * u) * u"
    using u by (simp add: mult_right_mono)
  have "sqrt pi * u * u \<le> sqrt pi * u * 1" using u sp by (intro mult_left_mono) simp_all
  with a b have "\<bar>fl (sqrt (fl pi)) - sqrt pi\<bar> \<le> 3 * (sqrt pi * u)"
    by (simp add: algebra_simps)
  also have "\<dots> \<le> 4 * (sqrt pi * u)" using sp u by simp
  also have "\<dots> = sqrt pi / 2 ^ 51" by (simp add: u_def)
  finally show ?thesis .
qed

text \<open>
  The rounded products against the exact ones: each rounding adds a relative error of at
  most \<open>2^-53\<close>.
\<close>

lemma Gamma_products_error:
  assumes "0 \<le> E" "\<bar>R - E\<bar> \<le> (c - 1) * E" "1 \<le> c" "\<And>i. i \<in> set xs \<Longrightarrow> 0 \<le> t i"
  shows "\<bar>foldl (\<lambda>g i. fl (g * t i)) R xs - E * prod_list (map t xs)\<bar>
           \<le> (c * (1 + 1 / 2 ^ 53) ^ length xs - 1) * (E * prod_list (map t xs))"
  using assms
proof (induction xs arbitrary: R E c)
  case Nil
  then show ?case by simp
next
  case (Cons a xs)
  define u :: real where "u = 1 / 2 ^ 53"
  have u: "0 \<le> u" by (simp add: u_def)
  have ta: "0 \<le> t a" using Cons.prems(4) by simp
  have R: "\<bar>R\<bar> \<le> c * E"
  proof -
    have "\<bar>R\<bar> \<le> \<bar>R - E\<bar> + E" using Cons.prems(1) by linarith
    also have "\<dots> \<le> (c - 1) * E + E" using Cons.prems(2) by simp
    finally show ?thesis by (simp add: algebra_simps)
  qed
  have "\<bar>fl (R * t a) - R * t a\<bar> \<le> \<bar>R * t a\<bar> * u"
    using fl_error [of "R * t a"] by (simp add: u_def)
  also have "\<bar>R * t a\<bar> = \<bar>R\<bar> * t a" using ta by (simp add: abs_mult)
  also have "\<bar>R\<bar> * t a * u \<le> c * E * t a * u"
    using R ta u by (intro mult_right_mono) simp_all
  finally have r1: "\<bar>fl (R * t a) - R * t a\<bar> \<le> c * E * t a * u" .
  have "\<bar>R * t a - E * t a\<bar> = \<bar>R - E\<bar> * t a"
    using ta by (simp add: abs_mult left_diff_distrib [symmetric])
  also have "\<dots> \<le> (c - 1) * E * t a"
    using Cons.prems(2) ta by (intro mult_right_mono) simp_all
  finally have r2: "\<bar>R * t a - E * t a\<bar> \<le> (c - 1) * E * t a" .
  have "\<bar>fl (R * t a) - E * t a\<bar> \<le> \<bar>fl (R * t a) - R * t a\<bar> + \<bar>R * t a - E * t a\<bar>"
    by linarith
  also have "\<dots> \<le> c * E * t a * u + (c - 1) * E * t a" using r1 r2 by linarith
  also have "\<dots> = (c * (1 + u) - 1) * (E * t a)" by (simp add: algebra_simps)
  finally have p2: "\<bar>fl (R * t a) - E * t a\<bar> \<le> (c * (1 + u) - 1) * (E * t a)" .
  have p1: "0 \<le> E * t a" using Cons.prems(1) ta by simp
  have p3: "1 \<le> c * (1 + u)"
  proof -
    have "1 * 1 \<le> c * (1 + u)" using Cons.prems(3) u by (intro mult_mono) simp_all
    then show ?thesis by simp
  qed
  have p4: "\<And>i. i \<in> set xs \<Longrightarrow> 0 \<le> t i" using Cons.prems(4) by simp
  from Cons.IH [OF p1 p2 p3 p4]
  show ?case by (simp add: u_def mult.assoc)
qed

lemma prod_list_upt: "prod_list (map f [1..<Suc k]) = (\<Prod>i = 1..k. f i)"
proof -
  have "prod_list (map f [1..<Suc k]) = prod f (set [1..<Suc k])"
    by (rule prod.distinct_set_conv_list [symmetric]) simp
  also have "set [1..<Suc k] = {1..k}" by auto
  finally show ?thesis .
qed

lemma prod_down_fact: "(\<Prod>i = 1..k. (real (Suc k) - real i)) = fact k"
proof -
  have "(\<Prod>i = 1..k. (real (Suc k) - real i)) = (\<Prod>i = 1..k. real (Suc k - i))"
    by (rule prod.cong) (auto simp: of_nat_diff)
  also have "\<dots> = (\<Prod>i = 1..k. real i)"
    by (rule prod.reindex_bij_witness [where i = "\<lambda>i. Suc k - i" and j = "\<lambda>i. Suc k - i"]) auto
  also have "\<dots> = fact k" by (simp add: fact_prod)
  finally show ?thesis .
qed

lemma Gamma_half_products_error:
  "\<bar>foldl (\<lambda>g i. fl (g * (real k + 1 / 2 - real i))) (fl (sqrt (fl pi))) [1..<Suc k]
      - sqrt pi * (\<Prod>i = 1..k. (real k + 1 / 2 - real i))\<bar>
     \<le> ((1 + 1 / 2 ^ 51) * (1 + 1 / 2 ^ 53) ^ k - 1) * (sqrt pi * (\<Prod>i = 1..k. (real k + 1 / 2 - real i)))"
proof -
  have a: "\<bar>fl (sqrt (fl pi)) - sqrt pi\<bar> \<le> (1 + 1 / 2 ^ 51 - 1) * sqrt pi"
    using sqrt_pi_double by simp
  have b: "0 \<le> real k + 1 / 2 - real i" if "i \<in> set [1..<Suc k]" for i
  proof -
    have "i \<le> k" using that by (simp del: upt_Suc)
    then have "real i \<le> real k" by simp
    then show ?thesis by simp
  qed
  have "\<bar>foldl (\<lambda>g i. fl (g * (real k + 1 / 2 - real i))) (fl (sqrt (fl pi))) [1..<Suc k]
      - sqrt pi * prod_list (map (\<lambda>i. real k + 1 / 2 - real i) [1..<Suc k])\<bar>
     \<le> ((1 + 1 / 2 ^ 51) * (1 + 1 / 2 ^ 53) ^ length [1..<Suc k] - 1)
          * (sqrt pi * prod_list (map (\<lambda>i. real k + 1 / 2 - real i) [1..<Suc k]))"
    by (rule Gamma_products_error [OF _ a _ b]) simp_all
  moreover have "length [1..<Suc k] = k" by (simp del: upt_Suc)
  ultimately show ?thesis unfolding prod_list_upt by (simp del: upt_Suc)
qed

lemma Gamma_int_products_error:
  "\<bar>foldl (\<lambda>g i. fl (g * (real (Suc k) - real i))) 1 [1..<Suc k] - fact k\<bar>
     \<le> ((1 + 1 / 2 ^ 53) ^ k - 1) * fact k"
proof -
  have a: "\<bar>1 - 1\<bar> \<le> (1 - 1) * (1::real)" by simp
  have b: "0 \<le> real (Suc k) - real i" if "i \<in> set [1..<Suc k]" for i
  proof -
    have "i \<le> k" using that by (simp del: upt_Suc)
    then have "real i \<le> real k" by simp
    then show ?thesis by simp
  qed
  have "\<bar>foldl (\<lambda>g i. fl (g * (real (Suc k) - real i))) 1 [1..<Suc k]
      - 1 * prod_list (map (\<lambda>i. real (Suc k) - real i) [1..<Suc k])\<bar>
     \<le> (1 * (1 + 1 / 2 ^ 53) ^ length [1..<Suc k] - 1)
          * (1 * prod_list (map (\<lambda>i. real (Suc k) - real i) [1..<Suc k]))"
    by (rule Gamma_products_error [OF _ a _ b]) simp_all
  moreover have "length [1..<Suc k] = k" by (simp del: upt_Suc)
  ultimately show ?thesis unfolding prod_list_upt prod_down_fact by (simp del: upt_Suc)
qed

text \<open>
  C4 (as amended). \<open>GammaFunction\<close> returns 1 at 0 and, at \<open>- 0.5\<close>, \<open>- 2\<close> times the double
  \<^verbatim>\<open>sqrt(M_PI)\<close>, which is \<open>sqrt pi\<close> up to a relative error of \<open>2^-51\<close>. At every
  half-integer \<open>x = k + 0.5\<close> up to \<open>170.5\<close> it returns \<^verbatim>\<open>sqrt(M_PI)\<close> multiplied in turn by
  \<open>x - 1, \<dots>, x - k\<close>, each product rounded to double (so \<^verbatim>\<open>sqrt(M_PI)\<close> itself at 0.5);
  this is \<open>sqrt pi\<close> times the product \<open>(x - 1)\<dots>(x - k)\<close> up to a relative error of
  \<open>(1 + 2^-51)(1 + 2^-53)^k - 1\<close>. At every integer \<open>x = k + 1\<close> up to 171 it returns 1
  multiplied in turn by \<open>x - 1, \<dots>, x - k\<close>, each product rounded; this is \<open>k!\<close> up to a
  relative error of \<open>(1 + 2^-53)^k - 1\<close>, and up to \<open>x = 23\<close> no product is rounded and the
  result is \<open>k!\<close> exactly (so 24 at 5). At every argument whose fractional part is neither
  0 nor 0.5 the call aborts, and so it does from \<open>2^31\<close> on, where the cast is out of range.
\<close>

theorem GammaFunction_values:
  "GammaFunction 0 = Some (Inr 1)
   \<and> GammaFunction (- 0.5) = Some (Inr (- 2 * fl (sqrt (fl pi))))
   \<and> \<bar>fl (sqrt (fl pi)) - sqrt pi\<bar> \<le> sqrt pi / 2 ^ 51
   \<and> (\<forall>k\<le>170. \<exists>r. GammaFunction (real k + 0.5) = Some (Inr r)
          \<and> r = foldl (\<lambda>g i. fl (g * (real k + 0.5 - real i))) (fl (sqrt (fl pi))) [1..<Suc k]
          \<and> \<bar>r - sqrt pi * (\<Prod>i = 1..k. (real k + 0.5 - real i))\<bar>
                \<le> ((1 + 1 / 2 ^ 51) * (1 + 1 / 2 ^ 53) ^ k - 1)
                   * (sqrt pi * (\<Prod>i = 1..k. (real k + 0.5 - real i))))
   \<and> GammaFunction 0.5 = Some (Inr (fl (sqrt (fl pi))))
   \<and> (\<forall>k\<le>170. \<exists>r. GammaFunction (real (Suc k)) = Some (Inr r)
          \<and> r = foldl (\<lambda>g i. fl (g * (real (Suc k) - real i))) 1 [1..<Suc k]
          \<and> \<bar>r - fact k\<bar> \<le> ((1 + 1 / 2 ^ 53) ^ k - 1) * fact k)
   \<and> (\<forall>k\<le>22. GammaFunction (real (Suc k)) = Some (Inr (fact k)))
   \<and> GammaFunction 5 = Some (Inr 24)
   \<and> (\<forall>x. frac x \<noteq> 0 \<longrightarrow> frac x \<noteq> 0.5 \<longrightarrow> GammaFunction x = Some (Inl InvalidDomain))
   \<and> (\<forall>x\<ge>2147483648. GammaFunction x = Some (Inl InvalidDomain))"
proof -
  have a: "GammaFunction 0 = Some (Inr 1)" by (simp add: GammaFunction_def)
  have h: "\<exists>r. GammaFunction (real k + 0.5) = Some (Inr r)
          \<and> r = foldl (\<lambda>g i. fl (g * (real k + 0.5 - real i))) (fl (sqrt (fl pi))) [1..<Suc k]
          \<and> \<bar>r - sqrt pi * (\<Prod>i = 1..k. (real k + 0.5 - real i))\<bar>
                \<le> ((1 + 1 / 2 ^ 51) * (1 + 1 / 2 ^ 53) ^ k - 1)
                   * (sqrt pi * (\<Prod>i = 1..k. (real k + 0.5 - real i)))"
    if "k \<le> 170" for k
  proof -
    have "k < 2 ^ 31" using that by simp
    from GammaFunction_half [OF this] Gamma_half_products_error [of k]
    show ?thesis by (simp del: upt_Suc)
  qed
  have "GammaFunction (real 0 + 1 / 2) = Some (Inr (fl (sqrt (fl pi))))"
    by (subst GammaFunction_half) simp_all
  then have h0: "GammaFunction 0.5 = Some (Inr (fl (sqrt (fl pi))))" by simp
  have p: "\<exists>r. GammaFunction (real (Suc k)) = Some (Inr r)
          \<and> r = foldl (\<lambda>g i. fl (g * (real (Suc k) - real i))) 1 [1..<Suc k]
          \<and> \<bar>r - fact k\<bar> \<le> ((1 + 1 / 2 ^ 53) ^ k - 1) * fact k"
    if "k \<le> 170" for k
  proof -
    have "Suc k < 2 ^ 31" using that by simp
    from GammaFunction_posint [OF this] Gamma_int_products_error [of k]
    show ?thesis by (simp del: upt_Suc of_nat_Suc)
  qed
  note f = GammaFunction_fact
  have "GammaFunction (real (Suc 4)) = Some (Inr (fact 4))" by (rule f) simp
  then have f5: "GammaFunction 5 = Some (Inr 24)" by (simp add: fact_numeral)
  have i: "GammaFunction x = Some (Inl InvalidDomain)" if "frac x \<noteq> 0" "frac x \<noteq> 0.5" for x
    by (rule GammaFunction_invalid) (use that in simp_all)
  note o = GammaFunction_out_of_range
  from a GammaFunction_minus_half sqrt_pi_double h h0 p f f5 i o show ?thesis by blast
qed

theorem GammaFunction_values_witness:
  "(2::nat) \<le> 170
   \<and> GammaFunction (real 2 + 0.5) = Some (Inr (fl (fl (fl (sqrt (fl pi)) * 1.5) * 0.5)))
   \<and> GammaFunction (real (Suc 2)) = Some (Inr 2)
   \<and> (3::nat) \<le> 22
   \<and> GammaFunction (real (Suc 3)) = Some (Inr 6)
   \<and> frac (1 / 3 :: real) \<noteq> 0 \<and> frac (1 / 3 :: real) \<noteq> 0.5
   \<and> GammaFunction (1 / 3) = Some (Inl InvalidDomain)
   \<and> (2147483648 :: real) \<le> 4294967296
   \<and> GammaFunction 4294967296 = Some (Inl InvalidDomain)"
proof -
  have a: "frac (1 / 3 :: real) \<noteq> 0" "frac (1 / 3 :: real) \<noteq> 0.5" by (simp_all add: frac_def)
  have l: "[1..<Suc 2] = [1, 2]" by (simp add: upt_rec)
  have b: "(2::nat) \<le> 170" "(3::nat) \<le> 22" by simp_all
  note T = GammaFunction_values
  from T have "\<forall>k\<le>170. \<exists>r. GammaFunction (real k + 0.5) = Some (Inr r)
          \<and> r = foldl (\<lambda>g i. fl (g * (real k + 0.5 - real i))) (fl (sqrt (fl pi))) [1..<Suc k]"
    by blast
  from this [rule_format, OF b(1)]
  have h: "GammaFunction (real 2 + 0.5) = Some (Inr (fl (fl (fl (sqrt (fl pi)) * 1.5) * 0.5)))"
    unfolding l by auto
  from T have "\<forall>k\<le>170. \<exists>r. GammaFunction (real (Suc k)) = Some (Inr r)
          \<and> r = foldl (\<lambda>g i. fl (g * (real (Suc k) - real i))) 1 [1..<Suc k]"
    by blast
  from this [rule_format, OF b(1)]
  have p: "GammaFunction (real (Suc 2)) = Some (Inr 2)"
    unfolding l using fl_int [of 2] by auto
  from T have "\<forall>k\<le>22. GammaFunction (real (Suc k)) = Some (Inr (fact k))"
    by blast
  from this [rule_format, OF b(2)]
  have f: "GammaFunction (real (Suc 3)) = Some (Inr 6)"
    by (simp add: fact_numeral)
  from T have "\<forall>x. frac x \<noteq> 0 \<longrightarrow> frac x \<noteq> 0.5 \<longrightarrow> GammaFunction x = Some (Inl InvalidDomain)"
    by blast
  from this [rule_format, OF a]
  have i: "GammaFunction (1 / 3) = Some (Inl InvalidDomain)" .
  have c: "(2147483648 :: real) \<le> 4294967296" by simp
  from T have "\<forall>x\<ge>2147483648. GammaFunction x = Some (Inl InvalidDomain)"
    by blast
  from this [rule_format, OF c]
  have r: "GammaFunction 4294967296 = Some (Inl InvalidDomain)" .
  from b a h p f i c r show ?thesis by blast
qed

text \<open>
  C4 as stated fails twice. At 24 the product \<open>23 * 22 * \<dots> * 5\<close> is rounded (the odd part
  of \<open>23!\<close> has more than 53 bits) and the result is not \<open>23!\<close>. At \<open>2^31\<close>, a positive
  integer, the cast to \<^verbatim>\<open>ordinal_type\<close> is out of range and the call aborts.
\<close>

theorem GammaFunction_values_counterexample:
  "GammaFunction 24 = Some (Inr 25852016738884978212864)
   \<and> (fact 23 :: real) = 25852016738884976640000
   \<and> GammaFunction 2147483648 = Some (Inl InvalidDomain)"
proof -
  have a: "GammaFunction 24 = Some (Inr 25852016738884978212864)"
    by (simp add: GammaFunction_def to_ordinal_def Gamma_int_loop.simps fl_def expo.simps rne_def)
  have b: "(fact 23 :: real) = 25852016738884976640000"
    by (simp add: fact_numeral)
  have c: "GammaFunction 2147483648 = Some (Inl InvalidDomain)"
    by (simp add: GammaFunction_def to_ordinal_def)
  from a b c show ?thesis by blast
qed

section \<open>JacobiPolynomial: what a call leaves in the value view\<close>

text \<open>Without a derivative view, a call that passes the order test writes the value at every point.\<close>

lemma JacobiPolynomial_value_view:
  assumes "n = 0 \<or> n = 1 \<or> n \<le> 2 * MaxPolylibPoint c - 1"
  shows "JacobiPolynomial c np z (Some p) None n alpha beta =
           Inr (Some (\<lambda>i. if 0 \<le> i \<and> i < np then JacobiPolynomial_value n alpha beta (z i) else p i), None)"
proof (cases "np = 0")
  case True
  then show ?thesis by (auto simp: JacobiPolynomial_def fun_eq_iff)
next
  case np: False
  consider "n = 0" | "n = 1" | "n \<noteq> 0" "n \<noteq> 1" "n \<le> 2 * MaxPolylibPoint c - 1"
    using assms by blast
  then show ?thesis
  proof cases
    case 1
    then show ?thesis
      using np for_up_write [of 0 np "\<lambda>i v. 1" p]
      by (auto simp: JacobiPolynomial_def JacobiPolynomial_value_def fun_eq_iff)
  next
    case 2
    then show ?thesis
      using np for_up_write [of 0 np "\<lambda>i v. 0.5 * (alpha - beta + (alpha + beta + 2) * z i)" p]
      by (auto simp: JacobiPolynomial_def JacobiPolynomial_value_def fun_eq_iff)
  next
    case 3
    obtain a2 a3 a4 where co: "jacobi_coeffs n alpha beta = (a2, a3, a4)"
      by (cases "jacobi_coeffs n alpha beta") auto
    let ?body = "\<lambda>i (pI, pD).
                          let z_i = z i;
                              (polyn2, polyn1, polyn0) = jacobi_recur a2 a3 a4 n alpha beta z_i
                          in (pI(i := polyn0),
                              map_option
                                (\<lambda>d. d(i := (0 - 0 * z_i) * polyn0 + 0 * polyn1 / (1 - z_i * z_i)))
                                pD)"
    let ?val = "\<lambda>h. \<lambda>i. if 0 \<le> i \<and> i < h then JacobiPolynomial_value n alpha beta (z i) else p i"
    have loop: "for_up 0 np ?body (p, None) = (?val np, None)"
    proof (cases "0 \<le> np")
      case True
      show ?thesis
        by (rule for_up_invariant [where P = "\<lambda>h s. s = (?val h, None)"])
           (use True 3 co in \<open>auto simp: fun_eq_iff JacobiPolynomial_value_def split: prod.splits\<close>)
    next
      case False
      then show ?thesis by (auto simp: for_up_empty fun_eq_iff)
    qed
    show ?thesis
      using 3 np co loop by (simp add: JacobiPolynomial_def)
  qed
qed

lemma JacobiPolynomialDerivative_scale:
  assumes "n \<noteq> 0"
    and "JacobiPolynomial c np z (Some p) None (n - 1) (alpha + 1) (beta + 1) = Inr (Some v, None)"
  shows "JacobiPolynomialDerivative c np z p n alpha beta =
           Inr (\<lambda>i. if 0 \<le> i \<and> i < np then 0.5 * (alpha + beta + of_int n + 1) * v i else v i)"
proof -
  define s where "s = 0.5 * (alpha + beta + of_int n + 1)"
  have wr: "for_up 0 np (\<lambda>i p. p(i := p i * s)) v = (\<lambda>i. if 0 \<le> i \<and> i < np then v i * s else v i)"
    by (rule for_up_write [of 0 np "\<lambda>i x. x * s" v])
  have jpd: "JacobiPolynomialDerivative c np z p n alpha beta = Inr (for_up 0 np (\<lambda>i p. p(i := p i * s)) v)"
    unfolding JacobiPolynomialDerivative_def s_def using assms by simp
  have "(\<lambda>i. if 0 \<le> i \<and> i < np then v i * s else v i) =
        (\<lambda>i. if 0 \<le> i \<and> i < np then 0.5 * (alpha + beta + of_int n + 1) * v i else v i)"
    by (auto simp: s_def fun_eq_iff)
  with wr jpd show ?thesis by simp
qed

text \<open>The scaled view \<^verbatim>\<open>JacobiPolynomialDerivative\<close> returns, in closed form.\<close>

lemma JacobiPolynomialDerivative_view:
  assumes "n = 0 \<or> n = 1 \<or> n = 2 \<or> n - 1 \<le> 2 * MaxPolylibPoint c - 1"
  shows "JacobiPolynomialDerivative c np z p n alpha beta =
           Inr (\<lambda>i. if 0 \<le> i \<and> i < np
                     then (if n = 0 then 0
                           else JacobiPolynomial_value (n - 1) (alpha + 1) (beta + 1) (z i)
                                * (0.5 * (alpha + beta + of_int n + 1)))
                     else p i)"
proof (cases "n = 0")
  case True
  then show ?thesis
    using for_up_write [of 0 np "\<lambda>i v. 0" p] by (auto simp: JacobiPolynomialDerivative_def fun_eq_iff)
next
  case False
  have "n - 1 = 0 \<or> n - 1 = 1 \<or> n - 1 \<le> 2 * MaxPolylibPoint c - 1"
    using assms False by auto
  from JacobiPolynomialDerivative_scale [OF False JacobiPolynomial_value_view [OF this]] False
  show ?thesis
    by (auto simp: fun_eq_iff)
qed

lemma JacobiPolynomialDerivative_abort:
  assumes "np \<noteq> 0" "n \<noteq> 0" "n \<noteq> 1" "n \<noteq> 2" "2 * MaxPolylibPoint c - 1 < n - 1"
  shows "JacobiPolynomialDerivative c np z p n alpha beta = Inl OrderExceeded"
  using assms by (simp add: JacobiPolynomialDerivative_def JacobiPolynomial_def)

text \<open>
  C6 (as amended). For \<open>n = 0\<close> the routine writes 0 at each of the \<open>np\<close> points. For
  \<open>n \<noteq> 0\<close> with \<open>n - 1\<close> within \<open>maxOrder\<close> (or \<open>n = 1\<close>, or \<open>n = 2\<close>, or no point at all),
  the delegated call \<open>JacobiPolynomial(np, z, polyd, null, n - 1, alpha + 1, beta + 1)\<close>
  returns with the value of the polynomial of degree \<open>n - 1\<close> at each point, and the routine
  leaves there that value times \<open>0.5 * (alpha + beta + n + 1)\<close>. Entries outside \<open>0..np-1\<close>
  are not written. For every other \<open>n\<close>, that is \<open>n - 1\<close> above \<open>maxOrder\<close> with at least one
  point, the delegated call aborts and so does the routine.
\<close>

theorem JacobiPolynomialDerivative_delegates:
  "(n = 0 \<longrightarrow>
      JacobiPolynomialDerivative c np z polyd n alpha beta =
        Inr (\<lambda>i. if 0 \<le> i \<and> i < np then 0 else polyd i))
   \<and> (n \<noteq> 0 \<longrightarrow> (np = 0 \<or> n = 1 \<or> n = 2 \<or> n - 1 \<le> 2 * MaxPolylibPoint c - 1) \<longrightarrow>
        (\<exists>v. JacobiPolynomial c np z (Some polyd) None (n - 1) (alpha + 1) (beta + 1) = Inr (Some v, None)
            \<and> (\<forall>i. 0 \<le> i \<and> i < np \<longrightarrow> v i = JacobiPolynomial_value (n - 1) (alpha + 1) (beta + 1) (z i))
            \<and> JacobiPolynomialDerivative c np z polyd n alpha beta =
                Inr (\<lambda>i. if 0 \<le> i \<and> i < np then 0.5 * (alpha + beta + of_int n + 1) * v i else polyd i)))
   \<and> (np \<noteq> 0 \<longrightarrow> n \<noteq> 0 \<longrightarrow> n \<noteq> 1 \<longrightarrow> n \<noteq> 2 \<longrightarrow> 2 * MaxPolylibPoint c - 1 < n - 1 \<longrightarrow>
        JacobiPolynomial c np z (Some polyd) None (n - 1) (alpha + 1) (beta + 1) = Inl OrderExceeded
        \<and> JacobiPolynomialDerivative c np z polyd n alpha beta = Inl OrderExceeded)"
proof (intro conjI impI)
  assume "n = 0"
  then show "JacobiPolynomialDerivative c np z polyd n alpha beta =
        Inr (\<lambda>i. if 0 \<le> i \<and> i < np then 0 else polyd i)"
    using JacobiPolynomialDerivative_view [of n c np z polyd alpha beta] by (auto simp: fun_eq_iff)
next
  assume n: "n \<noteq> 0" and ok: "np = 0 \<or> n = 1 \<or> n = 2 \<or> n - 1 \<le> 2 * MaxPolylibPoint c - 1"
  let ?jp = "JacobiPolynomial c np z (Some polyd) None (n - 1) (alpha + 1) (beta + 1)"
  let ?v = "\<lambda>i. if 0 \<le> i \<and> i < np
              then JacobiPolynomial_value (n - 1) (alpha + 1) (beta + 1) (z i) else polyd i"
  have v: "?jp = Inr (Some ?v, None)"
  proof (cases "np = 0")
    case True
    then show ?thesis by (auto simp: JacobiPolynomial_def fun_eq_iff)
  next
    case False
    with ok have "n - 1 = 0 \<or> n - 1 = 1 \<or> n - 1 \<le> 2 * MaxPolylibPoint c - 1" by auto
    then show ?thesis by (rule JacobiPolynomial_value_view)
  qed
  have "JacobiPolynomialDerivative c np z polyd n alpha beta =
          Inr (\<lambda>i. if 0 \<le> i \<and> i < np then 0.5 * (alpha + beta + of_int n + 1) * ?v i else polyd i)"
    unfolding JacobiPolynomialDerivative_scale [OF n v] by (auto simp: fun_eq_iff)
  with v show "\<exists>v. ?jp = Inr (Some v, None)
            \<and> (\<forall>i. 0 \<le> i \<and> i < np \<longrightarrow> v i = JacobiPolynomial_value (n - 1) (alpha + 1) (beta + 1) (z i))
            \<and> JacobiPolynomialDerivative c np z polyd n alpha beta =
                Inr (\<lambda>i. if 0 \<le> i \<and> i < np then 0.5 * (alpha + beta + of_int n + 1) * v i else polyd i)"
    by (intro exI [of _ ?v]) simp
next
  assume "np \<noteq> 0" "n \<noteq> 0" "n \<noteq> 1" "n \<noteq> 2" "2 * MaxPolylibPoint c - 1 < n - 1"
  then show "JacobiPolynomial c np z (Some polyd) None (n - 1) (alpha + 1) (beta + 1) = Inl OrderExceeded"
    by (simp add: JacobiPolynomial_def)
next
  assume "np \<noteq> 0" "n \<noteq> 0" "n \<noteq> 1" "n \<noteq> 2" "2 * MaxPolylibPoint c - 1 < n - 1"
  then show "JacobiPolynomialDerivative c np z polyd n alpha beta = Inl OrderExceeded"
    by (rule JacobiPolynomialDerivative_abort)
qed

theorem JacobiPolynomialDerivative_delegates_witness:
  "JacobiPolynomialDerivative \<lparr>MaxPolylibPoint = 32, MaxPolylibIteration = 50, tolerence = 1 / 1000000000000\<rparr>
      1 (\<lambda>_. 1 / 2) (\<lambda>_. 7) 0 0 0 = Inr ((\<lambda>_. 7)(0 := 0))
   \<and> JacobiPolynomial \<lparr>MaxPolylibPoint = 32, MaxPolylibIteration = 50, tolerence = 1 / 1000000000000\<rparr>
      1 (\<lambda>_. 1 / 2) (Some (\<lambda>_. 7)) None (2 - 1) (0 + 1) (0 + 1) = Inr (Some ((\<lambda>_. 7)(0 := 1)), None)
   \<and> JacobiPolynomial_value (2 - 1) (0 + 1) (0 + 1) (1 / 2) = 1
   \<and> JacobiPolynomialDerivative \<lparr>MaxPolylibPoint = 32, MaxPolylibIteration = 50, tolerence = 1 / 1000000000000\<rparr>
      1 (\<lambda>_. 1 / 2) (\<lambda>_. 7) 2 0 0 = Inr ((\<lambda>_. 7)(0 := 3 / 2))
   \<and> JacobiPolynomialDerivative \<lparr>MaxPolylibPoint = 2, MaxPolylibIteration = 50, tolerence = 1 / 1000000000000\<rparr>
      1 (\<lambda>_. 1 / 2) (\<lambda>_. 7) 5 0 0 = Inl OrderExceeded"
proof -
  let ?c = "\<lparr>MaxPolylibPoint = 32, MaxPolylibIteration = 50, tolerence = 1 / 1000000000000\<rparr>"
  let ?c2 = "\<lparr>MaxPolylibPoint = 2, MaxPolylibIteration = 50, tolerence = 1 / 1000000000000\<rparr>"
  have jp: "JacobiPolynomial ?c 1 (\<lambda>_. 1 / 2) (Some (\<lambda>_. 7)) None (2 - 1) (0 + 1) (0 + 1)
              = Inr (Some ((\<lambda>_. 7)(0 := 1)), None)"
    by (simp add: JacobiPolynomial_def for_up_def upto_rec1)
  have a: "JacobiPolynomialDerivative ?c 1 (\<lambda>_. 1 / 2) (\<lambda>_. 7) 0 0 0 = Inr ((\<lambda>_. 7)(0 := 0))"
    using JacobiPolynomialDerivative_delegates [of 0 ?c 1 "\<lambda>_. 1 / 2" "\<lambda>_. 7" 0 0]
    by (auto simp: fun_eq_iff)
  have "\<exists>v. JacobiPolynomial ?c 1 (\<lambda>_. 1 / 2) (Some (\<lambda>_. 7)) None (2 - 1) (0 + 1) (0 + 1) = Inr (Some v, None)
          \<and> (\<forall>i. 0 \<le> i \<and> i < 1 \<longrightarrow> v i = JacobiPolynomial_value (2 - 1) (0 + 1) (0 + 1) (1 / 2))
          \<and> JacobiPolynomialDerivative ?c 1 (\<lambda>_. 1 / 2) (\<lambda>_. 7) 2 0 0 =
               Inr (\<lambda>i. if 0 \<le> i \<and> i < 1 then 0.5 * (0 + 0 + of_int 2 + 1) * v i else 7)"
    using JacobiPolynomialDerivative_delegates [of 2 ?c 1 "\<lambda>_. 1 / 2" "\<lambda>_. 7" 0 0]
    by simp
  then obtain v where
    v1: "JacobiPolynomial ?c 1 (\<lambda>_. 1 / 2) (Some (\<lambda>_. 7)) None (2 - 1) (0 + 1) (0 + 1) = Inr (Some v, None)"
    and v3: "v 0 = JacobiPolynomial_value (2 - 1) (0 + 1) (0 + 1) (1 / 2)"
    and v2: "JacobiPolynomialDerivative ?c 1 (\<lambda>_. 1 / 2) (\<lambda>_. 7) 2 0 0 =
               Inr (\<lambda>i. if 0 \<le> i \<and> i < 1 then 0.5 * (0 + 0 + of_int 2 + 1) * v i else 7)"
    by auto
  from v1 jp have v: "v = (\<lambda>_. 7)(0 := 1)" by simp
  with v3 have pv: "JacobiPolynomial_value (2 - 1) (0 + 1) (0 + 1) (1 / 2) = 1" by simp
  from v v2 have b: "JacobiPolynomialDerivative ?c 1 (\<lambda>_. 1 / 2) (\<lambda>_. 7) 2 0 0 = Inr ((\<lambda>_. 7)(0 := 3 / 2))"
    by (auto simp: fun_eq_iff)
  have c: "JacobiPolynomialDerivative ?c2 1 (\<lambda>_. 1 / 2) (\<lambda>_. 7) 5 0 0 = Inl OrderExceeded"
    using JacobiPolynomialDerivative_delegates [of 5 ?c2 1 "\<lambda>_. 1 / 2" "\<lambda>_. 7" 0 0]
    by simp
  from a jp pv b c show ?thesis by blast
qed

text \<open>
  C6 as stated fails: it is not for every degree that the routine writes. With
  \<open>MaxPolylibPoint = 32\<close> (\<open>maxOrder = 63\<close>), one point and \<open>n = 65\<close>, the delegated call
  has degree 64 and aborts, and nothing is written.
\<close>

theorem JacobiPolynomialDerivative_delegates_counterexample:
  "JacobiPolynomial \<lparr>MaxPolylibPoint = 32, MaxPolylibIteration = 50, tolerence = 1 / 1000000000000\<rparr>
      1 (\<lambda>_. 1 / 2) (Some (\<lambda>_. 7)) None (65 - 1) (0 + 1) (0 + 1) = Inl OrderExceeded
   \<and> JacobiPolynomialDerivative \<lparr>MaxPolylibPoint = 32, MaxPolylibIteration = 50, tolerence = 1 / 1000000000000\<rparr>
      1 (\<lambda>_. 1 / 2) (\<lambda>_. 7) 65 0 0 = Inl OrderExceeded"
  by (simp add: JacobiPolynomialDerivative_def JacobiPolynomial_def)

section \<open>Derivative matrices: the last row as scratch space\<close>

text \<open>The outcome of \<^verbatim>\<open>JacobiPolynomialDerivative\<close> for every input.\<close>

lemma JacobiPolynomialDerivative_cases:
  "JacobiPolynomialDerivative c np z p n alpha beta =
     (if np = 0 \<or> n = 0 \<or> n = 1 \<or> n = 2 \<or> n - 1 \<le> 2 * MaxPolylibPoint c - 1
      then Inr (\<lambda>i. if 0 \<le> i \<and> i < np
                     then (if n = 0 then 0
                           else JacobiPolynomial_value (n - 1) (alpha + 1) (beta + 1) (z i)
                                * (0.5 * (alpha + beta + of_int n + 1)))
                     else p i)
      else Inl OrderExceeded)"
proof (cases "np = 0")
  case True
  then show ?thesis
    by (auto simp: JacobiPolynomialDerivative_def JacobiPolynomial_def for_up_empty fun_eq_iff)
next
  case False
  then show ?thesis
    using JacobiPolynomialDerivative_view [of n c np z p alpha beta]
      JacobiPolynomialDerivative_abort [of np n c z p alpha beta]
    by auto
qed

text \<open>Hence the view it returns is the same for any two buffers, inside \<open>0..np-1\<close>.\<close>

lemma JacobiPolynomialDerivative_buffer:
  "JacobiPolynomialDerivative c np z p n alpha beta =
     (case JacobiPolynomialDerivative c np z q n alpha beta of
        Inl e \<Rightarrow> Inl e
      | Inr v \<Rightarrow> Inr (\<lambda>i. if 0 \<le> i \<and> i < np then v i else p i))"
  unfolding JacobiPolynomialDerivative_cases [of c np z p] JacobiPolynomialDerivative_cases [of c np z q]
  by (auto simp: fun_eq_iff)

lemma for_up_rel:
  assumes "R lo s t"
    and "\<And>i s t. lo \<le> i \<Longrightarrow> i < hi \<Longrightarrow> R i s t \<Longrightarrow> R (i + 1) (b i s) (b' i t)"
    and "lo \<le> hi"
  shows "R hi (for_up lo hi b s) (for_up lo hi b' t)"
proof -
  have "\<And>h. h = lo + int k \<Longrightarrow> h \<le> hi \<Longrightarrow> R h (for_up lo h b s) (for_up lo h b' t)" for k
  proof (induction k)
    case 0
    then show ?case using assms(1) by (simp add: for_up_empty)
  next
    case (Suc k)
    have "R (h - 1) (for_up lo (h - 1) b s) (for_up lo (h - 1) b' t)" using Suc by simp
    then have "R (h - 1 + 1) (b (h - 1) (for_up lo (h - 1) b s)) (b' (h - 1) (for_up lo (h - 1) b' t))"
      using Suc.prems by (intro assms(2)) auto
    moreover have "lo < h" using Suc.prems by simp
    then have "for_up lo h b s = b (h - 1) (for_up lo (h - 1) b s)"
      "for_up lo h b' t = b' (h - 1) (for_up lo (h - 1) b' t)"
      by (rule for_up_last)+
    ultimately show ?case by simp
  qed
  from this [of hi "nat (hi - lo)"] assms(3) show ?thesis by simp
qed

text \<open>
  The inner loop for row \<open>i\<close>. While the derivative weights \<open>v\<close> sit in the columns
  \<open>lo..np-1\<close> of the last row of the aliased matrix \<open>Da\<close> (and \<open>Da\<close> is \<open>Dr\<close> elsewhere),
  one pass writes the same two entries in both; in the last row (\<open>i = np - 1\<close>) the pass
  \<open>j\<close> overwrites the weight \<open>v j\<close>, which is not read again.
\<close>

lemma Derivative_offdiag_refines:
  assumes "0 \<le> i" "i < np" "\<And>k. 0 \<le> k \<Longrightarrow> k < np \<Longrightarrow> pd k = v k"
    and "last_row_holds np v 0 Da Dr"
  shows "last_row_holds np v (if i = np - 1 then i else 0)
           (Derivative_offdiag z np i Da) (Derivative_offdiag_sep z pd i Dr)"
  unfolding Derivative_offdiag_def Derivative_offdiag_sep_def
proof (rule for_up_rel [where R = "\<lambda>j. last_row_holds np v (if i = np - 1 then j else 0)", OF _ _ assms(1)])
  show "last_row_holds np v (if i = np - 1 then 0 else 0) Da Dr" using assms(4) by simp
next
  fix j Da Dr
  assume j: "0 \<le> j" "j < i" and h: "last_row_holds np v (if i = np - 1 then j else 0) Da Dr"
  have rd: "Da (np - 1) j = v j" "Da (np - 1) i = v i"
    using h j assms(1,2) by (auto simp: last_row_holds_def)
  have pdv: "pd j = v j" "pd i = v i" using assms(1,2,3) j by auto
  show "last_row_holds np v (if i = np - 1 then j + 1 else 0)
          (let D1 = upd2 Da j i (Da (np - 1) j / (Da (np - 1) i * (z j - z i)))
           in upd2 D1 i j (D1 (np - 1) i / (D1 (np - 1) j * (z i - z j))))
          (upd2 (upd2 Dr j i (pd j / (pd i * (z j - z i)))) i j (pd i / (pd j * (z i - z j))))"
    using h j assms(1,2) rd pdv
    by (auto simp: last_row_holds_def upd2_def Let_def)
qed

text \<open>
  The double loop, for any diagonal formula \<open>dg\<close>: started with the weights in the last
  row of the matrix, it ends in the matrix that the loop over a separate buffer builds.
\<close>

lemma Derivative_loops_refine:
  assumes "1 \<le> np" "\<And>k. 0 \<le> k \<Longrightarrow> k < np \<Longrightarrow> pd k = v k"
  shows "for_up 0 np (\<lambda>i D. upd2 (Derivative_offdiag z np i D) i i (dg i))
           (D(np - 1 := (\<lambda>k. if 0 \<le> k \<and> k < np then v k else D (np - 1) k)))
         = for_up 0 np (\<lambda>i D. upd2 (Derivative_offdiag_sep z pd i D) i i (dg i)) D"
proof -
  let ?R = "\<lambda>h Da Dr. if h = np then Da = Dr else last_row_holds np v 0 Da Dr"
  have "?R np
          (for_up 0 np (\<lambda>i D. upd2 (Derivative_offdiag z np i D) i i (dg i))
             (D(np - 1 := (\<lambda>k. if 0 \<le> k \<and> k < np then v k else D (np - 1) k))))
          (for_up 0 np (\<lambda>i D. upd2 (Derivative_offdiag_sep z pd i D) i i (dg i)) D)"
  proof (rule for_up_rel [where R = ?R])
    show "?R 0 (D(np - 1 := (\<lambda>k. if 0 \<le> k \<and> k < np then v k else D (np - 1) k))) D"
      using assms(1) by (auto simp: last_row_holds_def)
  next
    fix i Da Dr
    assume i: "0 \<le> i" "i < np" and r: "?R i Da Dr"
    then have "last_row_holds np v 0 Da Dr" by auto
    from Derivative_offdiag_refines [OF i assms(2) this, of z]
    have q: "last_row_holds np v (if i = np - 1 then i else 0)
               (Derivative_offdiag z np i Da) (Derivative_offdiag_sep z pd i Dr)" .
    show "?R (i + 1) (upd2 (Derivative_offdiag z np i Da) i i (dg i))
                     (upd2 (Derivative_offdiag_sep z pd i Dr) i i (dg i))"
    proof (cases "i = np - 1")
      case True
      then show ?thesis using q by (auto simp: last_row_holds_def upd2_def fun_eq_iff)
    next
      case False
      then show ?thesis using q i by (auto simp: last_row_holds_def upd2_def fun_eq_iff)
    qed
  next
    show "0 \<le> np" using assms(1) by simp
  qed
  then show ?thesis by simp
qed

lemma bind_res_assoc: "bind_res (bind_res m f) g = bind_res m (\<lambda>a. bind_res (f a) g)"
  by (simp add: bind_res_def split: option.splits sum.splits)

lemma bind_res_cong: "(\<And>a. m = Some (Inr a) \<Longrightarrow> f a = g a) \<Longrightarrow> bind_res m f = bind_res m g"
  by (simp add: bind_res_def split: option.splits sum.splits)

lemma bind_res_Some_Inr: "bind_res (Some (Inr a)) f = f a"
  by (simp add: bind_res_def)

lemma bind_res_Some_Inl: "bind_res (Some (Inl e)) f = Some (Inl e)"
  by (simp add: bind_res_def)

lemma for_up_scale:
  "for_up lo hi (\<lambda>i pd. pd(i := pd i * f i)) p = (\<lambda>i. if lo \<le> i \<and> i < hi then p i * f i else p i)"
  by (rule for_up_write [of lo hi "\<lambda>i x. x * f i" p])

text \<open>
  The derivative weights of each family: the outcome for the buffer \<open>p\<close> is the outcome for
  any other buffer \<open>q\<close>, copied into the entries \<open>0..np-1\<close> of \<open>p\<close>.
\<close>

lemma pd_GaussRadauLeft_buffer:
  assumes "1 \<le> np"
  shows "pd_GaussRadauLeft c p z np alpha beta =
           bind_res (pd_GaussRadauLeft c q z np alpha beta)
             (\<lambda>v. Some (Inr (\<lambda>i. if 0 \<le> i \<and> i < np then v i else p i)))"
  unfolding pd_GaussRadauLeft_def bind_res_assoc
  apply (intro bind_res_cong)
  using assms
  apply (simp add: Let_def JacobiPolynomialDerivative_cases bind_res_Some_Inr bind_res_Some_Inl for_up_scale)
  apply (auto simp: shift_view_def unshift_view_def fun_eq_iff)
  done

lemma pd_GaussRadauRight_buffer:
  assumes "1 \<le> np"
  shows "pd_GaussRadauRight c p z np alpha beta =
           bind_res (pd_GaussRadauRight c q z np alpha beta)
             (\<lambda>v. Some (Inr (\<lambda>i. if 0 \<le> i \<and> i < np then v i else p i)))"
  unfolding pd_GaussRadauRight_def bind_res_assoc
  using assms
  apply (simp add: Let_def JacobiPolynomialDerivative_cases bind_res_Some_Inr bind_res_Some_Inl
           bind_res_assoc for_up_scale cong: if_cong)
  apply (intro conjI impI bind_res_cong)
   apply (auto simp: fun_eq_iff bind_res_Some_Inr)
  done

lemma pd_GaussLobatto_buffer:
  assumes "1 \<le> np"
  shows "pd_GaussLobatto c p z np alpha beta =
           bind_res (pd_GaussLobatto c q z np alpha beta)
             (\<lambda>v. Some (Inr (\<lambda>i. if 0 \<le> i \<and> i < np then v i else p i)))"
  unfolding pd_GaussLobatto_def bind_res_assoc
  apply (intro bind_res_cong)
  using assms
  apply (simp add: Let_def JacobiPolynomialDerivative_cases bind_res_Some_Inr bind_res_Some_Inl
           bind_res_assoc for_up_scale cong: if_cong)
  apply (intro conjI impI bind_res_cong)
   apply (auto simp: shift_view_def unshift_view_def fun_eq_iff bind_res_Some_Inr)
  done

text \<open>
  C8. Each of the four \<^verbatim>\<open>Derivative<..>::getValues\<close>, which keeps the derivative weights
  in the last row of \<open>D\<close> while it fills \<open>D\<close>, has the outcome (the same abort, or the same
  matrix, entry for entry) of the routine that keeps them in a separate buffer \<open>buf\<close>,
  whatever that buffer held: no weight is overwritten before its last read.
\<close>

theorem Derivative_last_row_scratch_refines:
  "Derivative_Gauss c D z np alpha beta = Derivative_Gauss_sep c buf D z np alpha beta
   \<and> Derivative_GaussRadauLeft c D z np alpha beta = Derivative_GaussRadauLeft_sep c buf D z np alpha beta
   \<and> Derivative_GaussRadauRight c D z np alpha beta = Derivative_GaussRadauRight_sep c buf D z np alpha beta
   \<and> Derivative_GaussLobatto c D z np alpha beta = Derivative_GaussLobatto_sep c buf D z np alpha beta"
proof (cases "np \<le> 0")
  case True
  then show ?thesis
    by (simp add: Derivative_Gauss_def Derivative_Gauss_sep_def
          Derivative_GaussRadauLeft_def Derivative_GaussRadauLeft_sep_def
          Derivative_GaussRadauRight_def Derivative_GaussRadauRight_sep_def
          Derivative_GaussLobatto_def Derivative_GaussLobatto_sep_def)
next
  case False
  then have np: "1 \<le> np" by simp
  have loops: "for_up 0 np (\<lambda>i D. upd2 (Derivative_offdiag z np i D) i i (dg i))
           (D(np - 1 := (\<lambda>k. if 0 \<le> k \<and> k < np then v k else D (np - 1) k)))
         = for_up 0 np (\<lambda>i D. upd2 (Derivative_offdiag_sep z v i D) i i (dg i)) D" for dg v
    by (rule Derivative_loops_refine [OF np]) simp
  have g: "Derivative_Gauss c D z np alpha beta = Derivative_Gauss_sep c buf D z np alpha beta"
    unfolding Derivative_Gauss_def Derivative_Gauss_sep_def
    by (subst JacobiPolynomialDerivative_buffer [of c np z "D (np - 1)" np alpha beta buf])
       (simp add: bind_res_def loops split: sum.splits)
  have l: "Derivative_GaussRadauLeft c D z np alpha beta = Derivative_GaussRadauLeft_sep c buf D z np alpha beta"
    unfolding Derivative_GaussRadauLeft_def Derivative_GaussRadauLeft_sep_def
    by (subst pd_GaussRadauLeft_buffer [OF np, of c "D (np - 1)" z alpha beta buf])
       (simp add: bind_res_def loops split: option.splits sum.splits)
  have r: "Derivative_GaussRadauRight c D z np alpha beta = Derivative_GaussRadauRight_sep c buf D z np alpha beta"
    unfolding Derivative_GaussRadauRight_def Derivative_GaussRadauRight_sep_def
    by (subst pd_GaussRadauRight_buffer [OF np, of c "D (np - 1)" z alpha beta buf])
       (simp add: bind_res_def loops split: option.splits sum.splits)
  have b: "Derivative_GaussLobatto c D z np alpha beta = Derivative_GaussLobatto_sep c buf D z np alpha beta"
    unfolding Derivative_GaussLobatto_def Derivative_GaussLobatto_sep_def
    by (subst pd_GaussLobatto_buffer [OF np, of c "D (np - 1)" z alpha beta buf])
       (simp add: bind_res_def loops split: option.splits sum.splits)
  from g l r b show ?thesis by blast
qed

section \<open>TriQL: the final ordering pass\<close>

text \<open>Exchanging two entries of a view permutes its values over any index range that holds both.\<close>

lemma mset_exchange:
  assumes "lo \<le> i" "i \<le> hi" "lo \<le> k" "k \<le> hi"
  shows "mset (map ((d(k := d i))(i := d k)) [lo..hi]) = mset (map d [lo..hi])"
proof -
  define ex where "ex = (\<lambda>x. if x = i then k else if x = k then i else x)"
  have d: "(d(k := d i))(i := d k) = d \<circ> ex" by (auto simp: ex_def fun_eq_iff)
  have inj: "inj_on ex {lo..hi}" by (auto simp: inj_on_def ex_def)
  have img: "ex ` {lo..hi} = {lo..hi}"
  proof
    show "ex ` {lo..hi} \<subseteq> {lo..hi}" using assms by (auto simp: ex_def)
    show "{lo..hi} \<subseteq> ex ` {lo..hi}"
    proof
      fix x assume "x \<in> {lo..hi}"
      then have "ex x \<in> {lo..hi}" using assms by (auto simp: ex_def)
      moreover have "ex (ex x) = x" by (auto simp: ex_def)
      ultimately show "x \<in> ex ` {lo..hi}" by (metis imageI)
    qed
  qed
  have m: "mset [lo..hi] = mset_set {lo..hi}" by (simp add: mset_set_set [symmetric])
  have p: "image_mset ex (mset [lo..hi]) = mset [lo..hi]"
    unfolding m using image_mset_mset_set [OF inj] img by simp
  have "mset (map (d \<circ> ex) [lo..hi]) = image_mset d (image_mset ex (mset [lo..hi]))"
    by (simp add: multiset.map_comp)
  also have "\<dots> = mset (map d [lo..hi])"
    unfolding p by simp
  finally show ?thesis unfolding d .
qed

text \<open>The inner loop finds the position and the value of a least entry of \<open>d(i..n-1)\<close>.\<close>

lemma TriQL_order_select:
  assumes "i < n"
    and "for_up (i + 1) n (\<lambda>l (k, p). if (d :: view) l < p then (l, d l) else (k, p)) (i, d i) = (k, p)"
  shows "i \<le> k \<and> k < n \<and> p = d k \<and> (\<forall>j. i \<le> j \<and> j < n \<longrightarrow> p \<le> d j)"
proof -
  have "(\<lambda>h (k, p). i \<le> k \<and> k < h \<and> p = d k \<and> (\<forall>j. i \<le> j \<and> j < h \<longrightarrow> p \<le> d j)) n
          (for_up (i + 1) n (\<lambda>l (k, p). if d l < p then (l, d l) else (k, p)) (i, d i))"
  proof (rule for_up_invariant)
    show "case (i, d i) of (k, p) \<Rightarrow> i \<le> k \<and> k < i + 1 \<and> p = d k \<and> (\<forall>j. i \<le> j \<and> j < i + 1 \<longrightarrow> p \<le> d j)"
      by auto
  next
    fix l t
    assume l: "i + 1 \<le> l" "l < n"
      and t: "case t of (k, p) \<Rightarrow> i \<le> k \<and> k < l \<and> p = d k \<and> (\<forall>j. i \<le> j \<and> j < l \<longrightarrow> p \<le> d j)"
    obtain k p where kp: "t = (k, p)" by (cases t)
    have *: "j < l + 1 \<longleftrightarrow> j < l \<or> j = l" for j by auto
    show "case (case t of (k, p) \<Rightarrow> if d l < p then (l, d l) else (k, p)) of
            (k, p) \<Rightarrow> i \<le> k \<and> k < l + 1 \<and> p = d k \<and> (\<forall>j. i \<le> j \<and> j < l + 1 \<longrightarrow> p \<le> d j)"
      using t l unfolding kp * by (auto intro: less_imp_le order_trans)
  next
    show "i + 1 \<le> n" using assms(1) by simp
  qed
  then show ?thesis unfolding assms(2) by auto
qed

text \<open>
  The outer loop: after the passes \<open>0..h-1\<close> the view is a permutation of the one it started
  from, untouched outside \<open>0..n-1\<close>, and each of its first \<open>h\<close> entries is at most every
  later entry.
\<close>

lemma TriQL_order_sorts:
  "mset (map (TriQL_order n d) [0..n - 1]) = mset (map d [0..n - 1])
   \<and> (\<forall>a b. 0 \<le> a \<and> a \<le> b \<and> b < n \<longrightarrow> TriQL_order n d a \<le> TriQL_order n d b)
   \<and> (\<forall>j. \<not> (0 \<le> j \<and> j < n) \<longrightarrow> TriQL_order n d j = d j)"
proof (cases "1 \<le> n")
  case False
  then show ?thesis by (simp add: TriQL_order_def for_up_empty)
next
  case True
  let ?body = "\<lambda>i d. let (k, p) = for_up (i + 1) n (\<lambda>l (k, p). if d l < p then (l, d l) else (k, p)) (i, d i)
                       in (d(k := d i))(i := p)"
  let ?I = "\<lambda>h d'. mset (map d' [0..n - 1]) = mset (map d [0..n - 1])
              \<and> (\<forall>a b. 0 \<le> a \<and> a < h \<and> a \<le> b \<and> b < n \<longrightarrow> d' a \<le> d' b)
              \<and> (\<forall>j. \<not> (0 \<le> j \<and> j < n) \<longrightarrow> d' j = d j)"
  have "?I (n - 1) (for_up 0 (n - 1) ?body d)"
  proof (rule for_up_invariant [where P = ?I])
    show "?I 0 d" by simp
  next
    fix i t
    assume i: "0 \<le> i" "i < n - 1" and inv: "?I i t"
    from inv have inv1: "mset (map t [0..n - 1]) = mset (map d [0..n - 1])"
      and inv2: "\<And>a b. 0 \<le> a \<Longrightarrow> a < i \<Longrightarrow> a \<le> b \<Longrightarrow> b < n \<Longrightarrow> t a \<le> t b"
      and inv3: "\<And>j. \<not> (0 \<le> j \<and> j < n) \<Longrightarrow> t j = d j"
      by blast+
    obtain k p where kp: "for_up (i + 1) n (\<lambda>l (k, p). if t l < p then (l, t l) else (k, p)) (i, t i) = (k, p)"
      by (cases "for_up (i + 1) n (\<lambda>l (k, p). if t l < p then (l, t l) else (k, p)) (i, t i)")
    from TriQL_order_select [OF _ kp] i
    have sel: "i \<le> k" "k < n" "p = t k" "\<And>j. i \<le> j \<Longrightarrow> j < n \<Longrightarrow> t k \<le> t j"
      by auto
    have body: "?body i t = (t(k := t i))(i := t k)" by (simp add: kp sel(3))
    have m: "mset (map ((t(k := t i))(i := t k)) [0..n - 1]) = mset (map t [0..n - 1])"
      using i sel by (intro mset_exchange) auto
    have s: "((t(k := t i))(i := t k)) a \<le> ((t(k := t i))(i := t k)) b"
      if ab: "0 \<le> a" "a < i + 1" "a \<le> b" "b < n" for a b
    proof (cases "a < i")
      case True
      have "t a \<le> t b" "t a \<le> t k" "t a \<le> t i"
        using inv2 [of a b] inv2 [of a k] inv2 [of a i] True ab sel(1,2) i by auto
      then show ?thesis using True sel(1) by auto
    next
      case False
      then have "a = i" using ab by simp
      then show ?thesis using sel(4) [of b] sel(4) [of i] ab sel(1,2) by auto
    qed
    have f: "((t(k := t i))(i := t k)) j = d j" if "\<not> (0 \<le> j \<and> j < n)" for j
      using that inv3 [of j] i sel(1,2) by auto
    show "?I (i + 1) (?body i t)"
      unfolding body using m s f inv1 by (intro conjI allI impI) auto
  next
    show "0 \<le> n - 1" using True by simp
  qed
  then have I: "?I (n - 1) (TriQL_order n d)" by (simp add: TriQL_order_def)
  then have I2: "\<And>a b. 0 \<le> a \<Longrightarrow> a < n - 1 \<Longrightarrow> a \<le> b \<Longrightarrow> b < n \<Longrightarrow> TriQL_order n d a \<le> TriQL_order n d b"
    by blast
  have "TriQL_order n d a \<le> TriQL_order n d b" if "0 \<le> a" "a \<le> b" "b < n" for a b
  proof (cases "a < n - 1")
    case True
    then show ?thesis using I2 that by auto
  next
    case False
    then have "a = b" using that by simp
    then show ?thesis by simp
  qed
  with I show ?thesis by auto
qed

lemma sorted_map_upto:
  "sorted (map f [lo..hi]) \<longleftrightarrow> (\<forall>a b. lo \<le> a \<and> a \<le> b \<and> b \<le> hi \<longrightarrow> f a \<le> f b)"
proof
  assume s: "sorted (map f [lo..hi])"
  show "\<forall>a b. lo \<le> a \<and> a \<le> b \<and> b \<le> hi \<longrightarrow> f a \<le> f b"
  proof (intro allI impI)
    fix a b assume ab: "lo \<le> a \<and> a \<le> b \<and> b \<le> hi"
    then have "nat (a - lo) \<le> nat (b - lo)" "nat (b - lo) < length (map f [lo..hi])" by auto
    from sorted_nth_mono [OF s this] ab show "f a \<le> f b" by simp
  qed
next
  assume h: "\<forall>a b. lo \<le> a \<and> a \<le> b \<and> b \<le> hi \<longrightarrow> f a \<le> f b"
  show "sorted (map f [lo..hi])"
    unfolding sorted_iff_nth_mono
  proof (intro allI impI)
    fix i j assume "i \<le> j" "j < length (map f [lo..hi])"
    then show "map f [lo..hi] ! i \<le> map f [lo..hi] ! j" using h by auto
  qed
qed

text \<open>
  C9. When \<open>TriQL\<close> returns normally, the reduction phase returned normally with some
  diagonal \<open>d1\<close> (and the off-diagonal that is returned), and the diagonal returned is
  \<open>d1\<close> reordered: ascending over \<open>0..n-1\<close>, with the same values counted with
  multiplicity, and untouched outside \<open>0..n-1\<close>.
\<close>

theorem TriQL_result_sorted_permutation:
  assumes "TriQL c d e n = Some (Inr (d', e'))"
  shows "\<exists>d1. TriQL_rows c n 0 d e = Some (Inr (d1, e'))
           \<and> sorted (map d' [0..n - 1])
           \<and> mset (map d' [0..n - 1]) = mset (map d1 [0..n - 1])
           \<and> (\<forall>j. \<not> (0 \<le> j \<and> j < n) \<longrightarrow> d' j = d1 j)"
proof -
  from assms obtain de where r0: "TriQL_rows c n 0 d e = Some (Inr de)"
    and de: "(case de of (d1, e1) \<Rightarrow> Some (Inr (TriQL_order n d1, e1))) = Some (Inr (d', e'))"
    by (auto simp: TriQL_def bind_res_def split: option.splits sum.splits)
  obtain d1 e1 where p: "de = (d1, e1)" by (cases de)
  from de p have d': "d' = TriQL_order n d1" and e': "e1 = e'" by simp_all
  have r: "TriQL_rows c n 0 d e = Some (Inr (d1, e'))" using r0 p e' by simp
  note o = TriQL_order_sorts [of n d1]
  have s: "sorted (map d' [0..n - 1])"
    unfolding sorted_map_upto d' using o by simp
  have m: "mset (map d' [0..n - 1]) = mset (map d1 [0..n - 1])"
    unfolding d' using o by blast
  have f: "\<forall>j. \<not> (0 \<le> j \<and> j < n) \<longrightarrow> d' j = d1 j"
    unfolding d' using o by blast
  from r s m f show ?thesis by blast
qed

theorem TriQL_result_sorted_permutation_witness:
  "TriQL \<lparr>MaxPolylibPoint = 32, MaxPolylibIteration = 50, tolerence = 1 / 1000000000000\<rparr>
      ((\<lambda>_. 0)(0 := 3, 1 := 1)) (\<lambda>_. 0) 2
     = Some (Inr ((\<lambda>_. 0)(0 := 1, 1 := 3), \<lambda>_. 0))
   \<and> (\<exists>d1. TriQL_rows \<lparr>MaxPolylibPoint = 32, MaxPolylibIteration = 50, tolerence = 1 / 1000000000000\<rparr>
              2 0 ((\<lambda>_. 0)(0 := 3, 1 := 1)) (\<lambda>_. 0) = Some (Inr (d1, \<lambda>_. 0))
           \<and> sorted (map ((\<lambda>_. 0)(0 := 1, 1 := 3 :: real)) [0..2 - 1])
           \<and> mset (map ((\<lambda>_. 0)(0 := 1, 1 := 3 :: real)) [0..2 - 1]) = mset (map d1 [0..2 - 1]))"
proof -
  let ?c = "\<lparr>MaxPolylibPoint = 32, MaxPolylibIteration = 50, tolerence = 1 / 1000000000000\<rparr>"
  have rows: "TriQL_rows ?c 2 0 ((\<lambda>_. 0)(0 := 3, 1 := 1)) (\<lambda>_. 0)
                = Some (Inr ((\<lambda>_. 0)(0 := 3, 1 := 1), \<lambda>_. 0))"
    by (simp add: TriQL_rows.simps TriQL_reduce_row.simps TriQL_find_m.simps fl_idem)
  have run: "TriQL ?c ((\<lambda>_. 0)(0 := 3, 1 := 1)) (\<lambda>_. 0) 2
               = Some (Inr ((\<lambda>_. 0)(0 := 1, 1 := 3), \<lambda>_. 0))"
    unfolding TriQL_def rows
    by (simp add: bind_res_def TriQL_order_def for_up_def upto_rec1 fun_eq_iff)
  from TriQL_result_sorted_permutation [OF run] run show ?thesis by blast
qed

section \<open>The deflated Newton iteration\<close>

lemma for_up_cong:
  assumes "\<And>i t. lo \<le> i \<Longrightarrow> i < hi \<Longrightarrow> b i t = b' i t"
  shows "for_up lo hi b s = for_up lo hi b' s"
proof (cases "lo \<le> hi")
  case True
  show ?thesis
    by (rule for_up_rel [where R = "\<lambda>h s t. s = t" and b = b and b' = b', OF _ _ True])
       (simp_all add: assms)
next
  case False
  then show ?thesis by (simp add: for_up_empty)
qed

text \<open>With the degree within \<open>maxOrder\<close>, the call in the loop body returns.\<close>

lemma JacobiPolynomial_returns:
  assumes "n = 0 \<or> n = 1 \<or> n \<le> 2 * MaxPolylibPoint c - 1"
  shows "\<exists>pp. JacobiPolynomial c np z polyi polyd n alpha beta = Inr pp"
  using assms by (auto simp: JacobiPolynomial_def Let_def split: option.splits prod.splits)

lemma Newton_delta_eq:
  assumes "JacobiPolynomial c 1 (\<lambda>_. r) (Some (\<lambda>_. 0)) (Some (\<lambda>_. 0)) n alpha beta = Inr pp"
  shows "Newton_delr z k r pp = Newton_delta c z k n alpha beta r"
  by (simp add: Newton_delta_def assms)

text \<open>One pass of the loop, with the update written as \<open>Newton_delta\<close>.\<close>

lemma Newton_loop_pass:
  assumes "n = 0 \<or> n = 1 \<or> n \<le> 2 * MaxPolylibPoint c - 1"
  shows "Newton_loop c z k n alpha beta j r =
           (if j < MaxPolylibIteration c then
              (if \<bar>Newton_delta c z k n alpha beta r\<bar> < tolerence c
               then Inr (r + Newton_delta c z k n alpha beta r)
               else Newton_loop c z k n alpha beta (j + 1) (r + Newton_delta c z k n alpha beta r))
            else Inr r)"
proof -
  from JacobiPolynomial_returns [OF assms]
  obtain pp where pp: "JacobiPolynomial c 1 (\<lambda>_. r) (Some (\<lambda>_. 0)) (Some (\<lambda>_. 0)) n alpha beta = Inr pp"
    by blast
  show ?thesis
    by (subst Newton_loop.simps) (simp add: pp Newton_delta_eq [OF pp])
qed

text \<open>
  The loop from counter \<open>j\<close>: it returns the iterate after \<open>s\<close> updates, where \<open>s\<close> is at
  most the number of passes left, no update before the last was below the tolerance, and
  the loop stopped either on the counter or on the tolerance test.
\<close>

lemma Newton_loop_stops:
  assumes "n = 0 \<or> n = 1 \<or> n \<le> 2 * MaxPolylibPoint c - 1"
  shows "\<exists>s. s \<le> nat (MaxPolylibIteration c - j)
             \<and> Newton_loop c z k n alpha beta j r = Inr (Newton_iterate c z k n alpha beta r s)
             \<and> (\<forall>t. Suc t < s \<longrightarrow>
                    \<not> \<bar>Newton_delta c z k n alpha beta (Newton_iterate c z k n alpha beta r t)\<bar> < tolerence c)
             \<and> (s = nat (MaxPolylibIteration c - j)
                 \<or> (0 < s \<and> \<bar>Newton_delta c z k n alpha beta (Newton_iterate c z k n alpha beta r (s - 1))\<bar>
                              < tolerence c))"
  using assms
proof (induction c z k n alpha beta j r rule: Newton_loop.induct)
  case (1 c z k n alpha beta j r)
  let ?d = "Newton_delta c z k n alpha beta"
  let ?it = "Newton_iterate c z k n alpha beta"
  show ?case
  proof (cases "j < MaxPolylibIteration c")
    case False
    then have "Newton_loop c z k n alpha beta j r = Inr r"
      by (subst Newton_loop.simps) simp
    then show ?thesis using False
      by (intro exI [of _ 0]) (simp add: Newton_iterate_def)
  next
    case True
    from JacobiPolynomial_returns [OF "1.prems"]
    obtain pp where pp: "JacobiPolynomial c 1 (\<lambda>_. r) (Some (\<lambda>_. 0)) (Some (\<lambda>_. 0)) n alpha beta = Inr pp"
      by blast
    note dl = Newton_delta_eq [OF pp, of z k]
    show ?thesis
    proof (cases "\<bar>?d r\<bar> < tolerence c")
      case conv: True
      have "Newton_loop c z k n alpha beta j r = Inr (r + ?d r)"
        by (subst Newton_loop.simps) (simp add: True pp dl conv)
      then show ?thesis using True conv
        by (intro exI [of _ 1]) (simp add: Newton_iterate_def)
    next
      case nconv: False
      have step: "Newton_loop c z k n alpha beta j r = Newton_loop c z k n alpha beta (j + 1) (r + ?d r)"
        by (subst Newton_loop.simps) (simp add: True pp dl nconv)
      have "\<not> \<bar>Newton_delr z k r pp\<bar> < tolerence c" using nconv dl by simp
      from "1.IH" [OF True pp this "1.prems"]
      obtain s where s: "s \<le> nat (MaxPolylibIteration c - (j + 1))"
        "Newton_loop c z k n alpha beta (j + 1) (r + Newton_delr z k r pp) = Inr (?it (r + Newton_delr z k r pp) s)"
        "\<forall>t. Suc t < s \<longrightarrow> \<not> \<bar>?d (?it (r + Newton_delr z k r pp) t)\<bar> < tolerence c"
        "s = nat (MaxPolylibIteration c - (j + 1))
          \<or> (0 < s \<and> \<bar>?d (?it (r + Newton_delr z k r pp) (s - 1))\<bar> < tolerence c)"
        by blast
      have shift: "?it (r + ?d r) t = ?it r (Suc t)" for t
        by (simp add: Newton_iterate_def funpow_Suc_right del: funpow.simps)
      have a: "Suc s \<le> nat (MaxPolylibIteration c - j)" using s(1) True by simp
      have b: "Newton_loop c z k n alpha beta j r = Inr (?it r (Suc s))"
        using step s(2) by (simp add: dl shift)
      have c: "\<not> \<bar>?d (?it r t)\<bar> < tolerence c" if "Suc t < Suc s" for t
      proof (cases t)
        case 0
        then show ?thesis using nconv by (simp add: Newton_iterate_def)
      next
        case (Suc t')
        then show ?thesis using s(3) that by (simp add: dl shift)
      qed
      have d: "Suc s = nat (MaxPolylibIteration c - j)
          \<or> (0 < Suc s \<and> \<bar>?d (?it r (Suc s - 1))\<bar> < tolerence c)"
      proof (cases "s = nat (MaxPolylibIteration c - (j + 1))")
        case True
        moreover have "Suc (nat (MaxPolylibIteration c - (j + 1))) = nat (MaxPolylibIteration c - j)"
          using \<open>j < MaxPolylibIteration c\<close> by linarith
        ultimately show ?thesis by simp
      next
        case False
        with s(4) have "0 < s" "\<bar>?d (?it (r + ?d r) (s - 1))\<bar> < tolerence c" by (simp_all add: dl)
        then show ?thesis by (simp add: shift)
      qed
      from a b c d show ?thesis by blast
    qed
  qed
qed

text \<open>The loop for root \<open>k\<close> reads the output view only at the roots already found.\<close>

lemma Newton_delr_cong:
  assumes "\<And>i. 0 \<le> i \<Longrightarrow> i < k \<Longrightarrow> z i = z' i"
  shows "Newton_delr z k r pp = Newton_delr z' k r pp"
proof -
  have "for_up 0 k (\<lambda>i sum. sum + 1 / (r - z i)) 0 = for_up 0 k (\<lambda>i sum. sum + 1 / (r - z' i)) 0"
    by (rule for_up_cong) (simp add: assms)
  then show ?thesis by (simp add: Newton_delr_def)
qed

lemma Newton_loop_cong:
  assumes "\<And>i. 0 \<le> i \<Longrightarrow> i < k \<Longrightarrow> z i = z' i"
  shows "Newton_loop c z k n alpha beta j r = Newton_loop c z' k n alpha beta j r"
  using assms
proof (induction c z k n alpha beta j r rule: Newton_loop.induct)
  case (1 c z k n alpha beta j r)
  have d: "Newton_delr z k r pp = Newton_delr z' k r pp" for pp
    by (rule Newton_delr_cong) (rule "1.prems")
  show ?case
  proof (cases "j < MaxPolylibIteration c")
    case False
    then show ?thesis
      by (subst Newton_loop.simps, subst (2) Newton_loop.simps) simp
  next
    case True
    show ?thesis
    proof (cases "JacobiPolynomial c 1 (\<lambda>_. r) (Some (\<lambda>_. 0)) (Some (\<lambda>_. 0)) n alpha beta")
      case (Inl er)
      then show ?thesis
        by (subst Newton_loop.simps, subst (2) Newton_loop.simps) (simp add: True)
    next
      case (Inr pp)
      show ?thesis
      proof (cases "\<bar>Newton_delr z k r pp\<bar> < tolerence c")
        case conv: True
        then show ?thesis
          by (subst Newton_loop.simps, subst (2) Newton_loop.simps) (simp add: True Inr d)
      next
        case False
        from "1.IH" [OF True Inr False "1.prems"] False
        show ?thesis
          by (subst Newton_loop.simps, subst (2) Newton_loop.simps) (simp add: True Inr d)
      qed
    qed
  qed
qed

lemma Newton_iterate_cong:
  assumes "\<And>i. 0 \<le> i \<Longrightarrow> i < k \<Longrightarrow> z i = z' i"
  shows "Newton_iterate c z k n alpha beta = Newton_iterate c z' k n alpha beta"
    and "Newton_delta c z k n alpha beta = Newton_delta c z' k n alpha beta"
proof -
  show d: "Newton_delta c z k n alpha beta = Newton_delta c z' k n alpha beta"
    using Newton_delr_cong [of k z z', OF assms]
    by (auto simp: Newton_delta_def fun_eq_iff split: sum.splits)
  show "Newton_iterate c z k n alpha beta = Newton_iterate c z' k n alpha beta"
    by (simp add: Newton_iterate_def fun_eq_iff d)
qed

text \<open>
  The loop over the roots returns, writes only the entries \<open>k..n-1\<close>, and leaves in entry \<open>i\<close>
  what the Newton loop for root \<open>i\<close> returned.
\<close>

lemma Deflation_loop_stores:
  assumes "n = 0 \<or> n = 1 \<or> n \<le> 2 * MaxPolylibPoint c - 1" "0 \<le> k"
  shows "\<exists>z'. Deflation_loop c n alpha beta k z rlast = Inr z'
            \<and> (\<forall>i. i < k \<or> n \<le> i \<longrightarrow> z' i = z i)
            \<and> (\<forall>i. k \<le> i \<and> i < n \<longrightarrow>
                  Newton_loop c z' i n alpha beta 1
                    (Newton_guess n i (if i = k then rlast else z' (i - 1))) = Inr (z' i))"
  using assms
proof (induction c n alpha beta k z rlast rule: Deflation_loop.induct)
  case (1 c n alpha beta k z rlast)
  show ?case
  proof (cases "k < n")
    case False
    then have "Deflation_loop c n alpha beta k z rlast = Inr z"
      by (subst Deflation_loop.simps) simp
    then show ?thesis using False by auto
  next
    case True
    from Newton_loop_stops [OF "1.prems"(1), of 1 z k alpha beta "Newton_guess n k rlast"]
    obtain r where r: "Newton_loop c z k n alpha beta 1 (Newton_guess n k rlast) = Inr r"
      by blast
    have "0 \<le> k + 1" using "1.prems"(2) by simp
    from "1.IH" [OF True r "1.prems"(1) this]
    obtain z' where z': "Deflation_loop c n alpha beta (k + 1) (z(k := r)) r = Inr z'"
      and fr: "\<And>i. i < k + 1 \<or> n \<le> i \<Longrightarrow> z' i = (z(k := r)) i"
      and nw: "\<And>i. k + 1 \<le> i \<Longrightarrow> i < n \<Longrightarrow>
                  Newton_loop c z' i n alpha beta 1
                    (Newton_guess n i (if i = k + 1 then r else z' (i - 1))) = Inr (z' i)"
      by blast
    have run: "Deflation_loop c n alpha beta k z rlast = Inr z'"
      by (subst Deflation_loop.simps) (simp add: True r z')
    have zk: "z' k = r" using fr [of k] by simp
    have f: "z' i = z i" if "i < k \<or> n \<le> i" for i
      using fr [of i] that True by auto
    have "Newton_loop c z' k n alpha beta 1 (Newton_guess n k rlast)
            = Newton_loop c z k n alpha beta 1 (Newton_guess n k rlast)"
      by (rule Newton_loop_cong) (simp add: f)
    then have k0: "Newton_loop c z' k n alpha beta 1 (Newton_guess n k rlast) = Inr (z' k)"
      by (simp add: r zk)
    have n: "Newton_loop c z' i n alpha beta 1
                    (Newton_guess n i (if i = k then rlast else z' (i - 1))) = Inr (z' i)"
      if "k \<le> i" "i < n" for i
    proof (cases "i = k")
      case True
      then show ?thesis using k0 by simp
    next
      case False
      then have "k + 1 \<le> i" using that by simp
      from nw [OF this that(2)] False zk show ?thesis
        by (cases "i = k + 1") auto
    qed
    from run f n show ?thesis by blast
  qed
qed

text \<open>
  C3 (as amended). With the degree within \<open>maxOrder\<close>, the zero finder returns normally,
  and for every root index \<open>k\<close> the entry \<open>z(k)\<close> holds the iterate after \<open>s\<close> Newton updates
  from the starting value, where \<open>s\<close> is at most \<open>MaxPolylibIteration - 1\<close>, no update before
  the last was below the tolerance, and the iteration stopped because the last update was
  below the tolerance or because \<open>MaxPolylibIteration - 1\<close> updates were done. No failure
  is raised in the second case.
\<close>

theorem Newton_iteration_stops_silently:
  assumes "n = 1 \<or> n \<le> 2 * MaxPolylibPoint c - 1"
  shows "\<exists>z'. JacobiZerosPolyDeflation c z n alpha beta = Inr z'
           \<and> (\<forall>k. 0 \<le> k \<and> k < n \<longrightarrow>
                 (\<exists>s. s \<le> nat (MaxPolylibIteration c - 1)
                    \<and> z' k = Newton_iterate c z' k n alpha beta (Newton_guess n k (z' (k - 1))) s
                    \<and> (\<forall>t. Suc t < s \<longrightarrow>
                          \<not> \<bar>Newton_delta c z' k n alpha beta
                               (Newton_iterate c z' k n alpha beta (Newton_guess n k (z' (k - 1))) t)\<bar>
                             < tolerence c)
                    \<and> (s = nat (MaxPolylibIteration c - 1)
                        \<or> (0 < s \<and> \<bar>Newton_delta c z' k n alpha beta
                                       (Newton_iterate c z' k n alpha beta (Newton_guess n k (z' (k - 1))) (s - 1))\<bar>
                                     < tolerence c))))"
proof (cases "n = 0")
  case True
  then show ?thesis by (simp add: JacobiZerosPolyDeflation_def)
next
  case False
  have ok: "n = 0 \<or> n = 1 \<or> n \<le> 2 * MaxPolylibPoint c - 1" using assms by blast
  from Deflation_loop_stores [OF ok, of 0 alpha beta z 0]
  obtain z' where run: "Deflation_loop c n alpha beta 0 z 0 = Inr z'"
    and nw: "\<And>i. 0 \<le> i \<Longrightarrow> i < n \<Longrightarrow>
                  Newton_loop c z' i n alpha beta 1
                    (Newton_guess n i (if i = 0 then 0 else z' (i - 1))) = Inr (z' i)"
    by auto
  have g: "Newton_guess n i (if i = 0 then 0 else z' (i - 1)) = Newton_guess n i (z' (i - 1))" for i
    by (simp add: Newton_guess_def)
  have "\<exists>s. s \<le> nat (MaxPolylibIteration c - 1)
                    \<and> z' k = Newton_iterate c z' k n alpha beta (Newton_guess n k (z' (k - 1))) s
                    \<and> (\<forall>t. Suc t < s \<longrightarrow>
                          \<not> \<bar>Newton_delta c z' k n alpha beta
                               (Newton_iterate c z' k n alpha beta (Newton_guess n k (z' (k - 1))) t)\<bar>
                             < tolerence c)
                    \<and> (s = nat (MaxPolylibIteration c - 1)
                        \<or> (0 < s \<and> \<bar>Newton_delta c z' k n alpha beta
                                       (Newton_iterate c z' k n alpha beta (Newton_guess n k (z' (k - 1))) (s - 1))\<bar>
                                     < tolerence c))"
    if k: "0 \<le> k" "k < n" for k
    using Newton_loop_stops [OF ok, of 1 z' k alpha beta "Newton_guess n k (z' (k - 1))"]
      nw [OF k] unfolding g by auto
  with run False show ?thesis by (simp add: JacobiZerosPolyDeflation_def)
qed

theorem Newton_iteration_stops_silently_witness:
  "JacobiZerosPolyDeflation \<lparr>MaxPolylibPoint = 32, MaxPolylibIteration = 50, tolerence = 1 / 1000000000000\<rparr>
       (\<lambda>_. 0) 1 1 0 = Inr ((\<lambda>_. 0)(0 := - (1 / 3)))
   \<and> (\<exists>z'. JacobiZerosPolyDeflation \<lparr>MaxPolylibPoint = 32, MaxPolylibIteration = 50, tolerence = 1 / 1000000000000\<rparr>
              (\<lambda>_. 0) 1 1 0 = Inr z'
         \<and> (\<exists>s. s \<le> nat (50 - 1)
               \<and> z' 0 = Newton_iterate \<lparr>MaxPolylibPoint = 32, MaxPolylibIteration = 50, tolerence = 1 / 1000000000000\<rparr>
                           z' 0 1 1 0 (Newton_guess 1 0 (z' (0 - 1))) s))"
proof -
  let ?c = "\<lparr>MaxPolylibPoint = 32, MaxPolylibIteration = 50, tolerence = 1 / 1000000000000\<rparr>"
  have jp: "JacobiPolynomial ?c 1 (\<lambda>_. r) (Some (\<lambda>_. 0)) (Some (\<lambda>_. 0)) 1 1 0
              = Inr (Some ((\<lambda>_. 0)(0 := 0.5 * (1 + 3 * r))), Some ((\<lambda>_. 0)(0 := 3 / 2)))" for r
    by (simp add: JacobiPolynomial_def for_up_def upto_rec1)
  have g: "Newton_guess 1 0 0 = 0" by (simp add: Newton_guess_def)
  have n2: "Newton_loop ?c (\<lambda>_. 0) 0 1 1 0 2 (- (1 / 3)) = Inr (- (1 / 3))"
    by (subst Newton_loop.simps, unfold jp) (simp add: Newton_delr_def val0_def for_up_def)
  have n1: "Newton_loop ?c (\<lambda>_. 0) 0 1 1 0 1 0 = Inr (- (1 / 3))"
    by (subst Newton_loop.simps, unfold jp) (simp add: Newton_delr_def val0_def for_up_def n2)
  have d1: "Deflation_loop ?c 1 1 0 1 ((\<lambda>_. 0)(0 := - (1 / 3))) (- (1 / 3)) = Inr ((\<lambda>_. 0)(0 := - (1 / 3)))"
    by (subst Deflation_loop.simps) simp
  have run: "JacobiZerosPolyDeflation ?c (\<lambda>_. 0) 1 1 0 = Inr ((\<lambda>_. 0)(0 := - (1 / 3)))"
    unfolding JacobiZerosPolyDeflation_def
    by (subst Deflation_loop.simps) (simp add: g n1 d1)
  have "(1::int) = 1 \<or> 1 \<le> 2 * MaxPolylibPoint ?c - 1" by simp
  from Newton_iteration_stops_silently [OF this, of "\<lambda>_. 0" 1 0]
  obtain z' where z': "JacobiZerosPolyDeflation ?c (\<lambda>_. 0) 1 1 0 = Inr z'"
    and k: "\<And>k. 0 \<le> k \<Longrightarrow> k < 1 \<Longrightarrow>
              (\<exists>s. s \<le> nat (MaxPolylibIteration ?c - 1)
                 \<and> z' k = Newton_iterate ?c z' k 1 1 0 (Newton_guess 1 k (z' (k - 1))) s)"
    by blast
  from k [of 0] have "\<exists>s. s \<le> nat (50 - 1)
                 \<and> z' 0 = Newton_iterate ?c z' 0 1 1 0 (Newton_guess 1 0 (z' (0 - 1))) s"
    by simp
  with run z' show ?thesis by blast
qed

text \<open>
  C3 as stated fails. With \<open>MaxPolylibIteration = 2\<close>, degree 2 and \<open>alpha = beta = 0\<close>, the
  first root starts at \<open>- sqrt 2 / 2\<close>; the one pass of the loop (\<open>j = 1\<close>) moves it by
  \<open>sqrt 2 / 14\<close>, which is not below the tolerance, and the loop is left (\<open>j = 2\<close>): \<open>z(0)\<close>
  is the iterate after one update, not two, although a second update would move it again.
\<close>

theorem Newton_iteration_stops_silently_counterexample:
  "MaxPolylibIteration \<lparr>MaxPolylibPoint = 32, MaxPolylibIteration = 2, tolerence = 1 / 1000000000000\<rparr> = 2
   \<and> (\<exists>z'. JacobiZerosPolyDeflation \<lparr>MaxPolylibPoint = 32, MaxPolylibIteration = 2, tolerence = 1 / 1000000000000\<rparr>
              (\<lambda>_. 0) 2 0 0 = Inr z'
          \<and> z' 0 = - sqrt 2 / 2 + sqrt 2 / 14)
   \<and> Newton_guess 2 0 0 = - sqrt 2 / 2
   \<and> Newton_delta \<lparr>MaxPolylibPoint = 32, MaxPolylibIteration = 2, tolerence = 1 / 1000000000000\<rparr>
        (\<lambda>_. 0) 0 2 0 0 (- sqrt 2 / 2) = sqrt 2 / 14
   \<and> \<not> \<bar>sqrt 2 / 14\<bar> < tolerence \<lparr>MaxPolylibPoint = 32, MaxPolylibIteration = 2, tolerence = 1 / 1000000000000\<rparr>
   \<and> Newton_delta \<lparr>MaxPolylibPoint = 32, MaxPolylibIteration = 2, tolerence = 1 / 1000000000000\<rparr>
        (\<lambda>_. 0) 0 2 0 0 (- sqrt 2 / 2 + sqrt 2 / 14) \<noteq> 0"
proof -
  let ?c = "\<lparr>MaxPolylibPoint = 32, MaxPolylibIteration = 2, tolerence = 1 / 1000000000000\<rparr>"
  have co: "jacobi_coeffs 2 0 0 = ((\<lambda>_. 0)(0 := 0), (\<lambda>_. 0)(0 := 3 / 2), (\<lambda>_. 0)(0 := 1 / 2))"
    by (simp add: jacobi_coeffs_def for_up_def upto_rec1 Let_def)
  have jp: "JacobiPolynomial ?c 1 (\<lambda>_. r) (Some (\<lambda>_. 0)) (Some (\<lambda>_. 0)) 2 0 0
     = Inr (Some ((\<lambda>_. 0)(0 := 3 / 2 * r * r - 1 / 2)),
            Some ((\<lambda>_. 0)(0 := (0 - 2 * r) * (3 / 2 * r * r - 1 / 2) + 2 * r / (1 - r * r))))" for r
    by (simp add: JacobiPolynomial_def co jacobi_recur_def for_up_def upto_rec1 Let_def algebra_simps)
  have g: "Newton_guess 2 0 0 = - (sqrt 2 / 2)"
    by (simp add: Newton_guess_def cos_45)
  have dgen: "Newton_delta ?c z 0 2 0 0 r
                = - ((3 * r * r / 2 - 1 / 2) / (2 * r / (1 - r * r) - 2 * r * (3 * r * r / 2 - 1 / 2)))" for z r
    unfolding Newton_delta_def jp by (simp add: Newton_delr_def val0_def for_up_def Let_def)
  have d0: "Newton_delta ?c z 0 2 0 0 (- (sqrt 2 / 2)) = sqrt 2 / 14" for z
    unfolding dgen by (simp add: field_simps)
  have big: "\<not> \<bar>sqrt 2 / 14\<bar> < tolerence ?c"
  proof -
    have "1 \<le> sqrt 2" by simp
    then have "1 / 14 \<le> \<bar>sqrt 2 / 14\<bar>" by simp
    then have "\<not> \<bar>sqrt 2 / 14\<bar> < 1 / 1000000000000" by linarith
    then show ?thesis by simp
  qed
  have ok: "(2::int) = 0 \<or> (2::int) = 1 \<or> 2 \<le> 2 * MaxPolylibPoint ?c - 1" by simp
  have n2: "Newton_loop ?c z 0 2 0 0 (1 + 1) r = Inr r" for z r
    by (subst Newton_loop_pass [OF ok]) simp
  have n1: "Newton_loop ?c z 0 2 0 0 1 (- (sqrt 2 / 2)) = Inr (- (sqrt 2 / 2) + sqrt 2 / 14)" for z
    by (subst Newton_loop_pass [OF ok], unfold d0 n2) (use big in simp)
  from Deflation_loop_stores [OF ok, of 0 0 0 "\<lambda>_. 0" 0]
  obtain z' where run: "Deflation_loop ?c 2 0 0 0 (\<lambda>_. 0) 0 = Inr z'"
    and nw: "\<And>i. 0 \<le> i \<Longrightarrow> i < 2 \<Longrightarrow>
               Newton_loop ?c z' i 2 0 0 1 (Newton_guess 2 i (if i = 0 then 0 else z' (i - 1))) = Inr (z' i)"
    by auto
  from nw [of 0] have "Newton_loop ?c z' 0 2 0 0 1 (Newton_guess 2 0 0) = Inr (z' 0)"
    by simp
  then have "z' 0 = - sqrt 2 / 2 + sqrt 2 / 14"
    unfolding g n1 by simp
  with run have ex: "\<exists>z'. JacobiZerosPolyDeflation ?c (\<lambda>_. 0) 2 0 0 = Inr z' \<and> z' 0 = - sqrt 2 / 2 + sqrt 2 / 14"
    by (simp add: JacobiZerosPolyDeflation_def)
  have x1: "- sqrt 2 / 2 + sqrt 2 / 14 = - 3 * sqrt 2 / 7" by simp
  have d1: "Newton_delta ?c (\<lambda>_. 0) 0 2 0 0 (- sqrt 2 / 2 + sqrt 2 / 14) \<noteq> 0"
    unfolding dgen x1 by (simp add: field_simps)
  from ex g d0 big d1 show ?thesis by simp
qed

section \<open>JacobiZeros: the entries written\<close>













section \<open>Gauss-Lobatto cubature\<close>








end
